theory Spec2Isabelle
  imports Main "HOL-Library.Sublist" "HOL-Library.Word"
begin

section \<open>JavaScript strings\<close>

text \<open>
  A JavaScript string is a sequence of UTF-16 code units, and every operation of the
  source works on code units: \<open>length\<close>, indexing, \<open>includes\<close>, \<open>split\<close>, \<open>trim\<close>
  and the patterns (none has the flag \<open>u\<close>). A code unit is a 16-bit word, and a string
  a list of them. \<open>js\<close> turns a literal into such a list, one code unit per character.
\<close>

type_synonym codeunit = "16 word"

type_synonym jsstring = "codeunit list"

definition cu :: "char \<Rightarrow> codeunit" where
  "cu c = of_char c"

definition js :: "string \<Rightarrow> jsstring" where
  "js s = map cu s"

definition dquote :: codeunit where
  "dquote = 0x22"

definition backslash :: codeunit where
  "backslash = 0x5C"

text \<open>The middle dot, U+00B7.\<close>

definition middot :: codeunit where
  "middot = 0xB7"

definition newline :: codeunit where
  "newline = 0x0A"

text \<open>
  WhiteSpace and LineTerminator of ECMAScript: tab, line feed, vertical tab, form feed,
  carriage return, space, no-break space, the byte order mark and the characters of the
  Unicode category Zs, U+2028 and U+2029. Both \<open>String.prototype.trim\<close> and the
  class \<open>\s\<close> use this set.
\<close>

definition isSpace :: "codeunit \<Rightarrow> bool" where
  "isSpace c = (c \<in> set [0x09, 0x0A, 0x0B, 0x0C, 0x0D, 0x20, 0xA0, 0x1680,
                          0x2000, 0x2001, 0x2002, 0x2003, 0x2004, 0x2005, 0x2006, 0x2007,
                          0x2008, 0x2009, 0x200A, 0x2028, 0x2029, 0x202F, 0x205F, 0x3000,
                          0xFEFF])"

text \<open>The class \<open>\d\<close>: the ten ASCII digits.\<close>

definition isDigit :: "codeunit \<Rightarrow> bool" where
  "isDigit c = (cu CHR ''0'' \<le> c \<and> c \<le> cu CHR ''9'')"

text \<open>The class \<open>[a-zA-Z]\<close>.\<close>

definition isAlpha :: "codeunit \<Rightarrow> bool" where
  "isAlpha c = (cu CHR ''a'' \<le> c \<and> c \<le> cu CHR ''z'' \<or> cu CHR ''A'' \<le> c \<and> c \<le> cu CHR ''Z'')"

text \<open>
  Canonicalize of a case-insensitive pattern (flag \<open>i\<close>, no flag \<open>u\<close>) maps a code
  unit to its upper case, except that a code unit from 128 up is never mapped below
  128. The patterns of the source compare with ASCII letters only, and a code unit has
  the canonical form of an ASCII letter exactly when it is that letter in either case;
  so it is enough to map the lower-case ASCII letters to upper case, as \<open>canon\<close> does.
\<close>

definition canon :: "codeunit \<Rightarrow> codeunit" where
  "canon c = (if cu CHR ''a'' \<le> c \<and> c \<le> cu CHR ''z'' then c - 0x20 else c)"

text \<open>\<open>s.trim()\<close>\<close>

definition trim :: "jsstring \<Rightarrow> jsstring" where
  "trim s = rev (dropWhile isSpace (rev (dropWhile isSpace s)))"

text \<open>\<open>s.includes(p)\<close>: \<open>p\<close> occurs in \<open>s\<close> as a contiguous run.\<close>

fun str_includes :: "jsstring \<Rightarrow> jsstring \<Rightarrow> bool" where
  "str_includes [] p = (p = [])"
| "str_includes (c # cs) p = (prefix p (c # cs) \<or> str_includes cs p)"

text \<open>\<open>s.split(sep)\<close> for a separator of one code unit: the empty string gives one empty piece.\<close>

fun split :: "codeunit \<Rightarrow> jsstring \<Rightarrow> jsstring list" where
  "split sep [] = [[]]"
| "split sep (c # cs) =
     (if c = sep then [] # split sep cs
      else (case split sep cs of p # ps \<Rightarrow> (c # p) # ps | [] \<Rightarrow> [[c]]))"

text \<open>\<open>xs.join(sep)\<close>: the empty array gives the empty string.\<close>

fun join :: "jsstring \<Rightarrow> jsstring list \<Rightarrow> jsstring" where
  "join sep [] = []"
| "join sep [x] = x"
| "join sep (x # y # ys) = x @ sep @ join sep (y # ys)"

section \<open>Regular expressions\<close>

text \<open>
  The patterns of the source as terms, and a backtracking matcher that returns every way
  a pattern matches at a position, in the order in which the ECMAScript matcher tries
  them: the first element is the match JavaScript reports. All the source's loops are
  greedy. \<open>Group\<close> is the capturing group number 1 (no pattern of the source has
  two); \<open>(?: )\<close> needs no constructor.
\<close>

datatype regex =
    Eps
  | Chr codeunit
  | ChrI codeunit
  | Cls "codeunit \<Rightarrow> bool"
  | Bol
  | Eol
  | Seq regex regex
  | Alt regex regex
  | Star regex
  | Group regex

text \<open>\<open>r?\<close>, \<open>r+\<close>, \<open>r{3}\<close>, \<open>r{1,3}\<close> and a literal string, with and without flag \<open>i\<close>.\<close>

definition Opt :: "regex \<Rightarrow> regex" where
  "Opt r = Alt r Eps"

definition Plus :: "regex \<Rightarrow> regex" where
  "Plus r = Seq r (Star r)"

definition Rep3 :: "regex \<Rightarrow> regex" where
  "Rep3 r = Seq r (Seq r r)"

definition Rep1to3 :: "regex \<Rightarrow> regex" where
  "Rep1to3 r = Seq r (Opt (Seq r (Opt r)))"

definition Str :: "jsstring \<Rightarrow> regex" where
  "Str s = foldr (\<lambda>c r. Seq (Chr c) r) s Eps"

definition StrI :: "jsstring \<Rightarrow> regex" where
  "StrI s = foldr (\<lambda>c r. Seq (ChrI c) r) s Eps"

text \<open>
  A matcher state: the capture of group 1 so far, the index in the input, and the rest
  of the input from that index.
\<close>

type_synonym mstate = "jsstring option \<times> nat \<times> jsstring"

function matches :: "regex \<Rightarrow> mstate \<Rightarrow> mstate list" where
  "matches Eps st = [st]"
| "matches (Chr a) (cap, i, s) =
     (case s of [] \<Rightarrow> [] | x # xs \<Rightarrow> if x = a then [(cap, Suc i, xs)] else [])"
| "matches (ChrI a) (cap, i, s) =
     (case s of [] \<Rightarrow> [] | x # xs \<Rightarrow> if canon x = canon a then [(cap, Suc i, xs)] else [])"
| "matches (Cls P) (cap, i, s) =
     (case s of [] \<Rightarrow> [] | x # xs \<Rightarrow> if P x then [(cap, Suc i, xs)] else [])"
| "matches Bol (cap, i, s) = (if i = 0 then [(cap, i, s)] else [])"
| "matches Eol (cap, i, s) = (if s = [] then [(cap, i, s)] else [])"
| "matches (Seq r1 r2) st = concat (map (matches r2) (matches r1 st))"
| "matches (Alt r1 r2) st = matches r1 st @ matches r2 st"
| "matches (Star r) (cap, i, s) =
     concat (map (matches (Star r))
       (filter (\<lambda>st'. length (snd (snd st')) < length s) (matches r (cap, i, s))))
     @ [(cap, i, s)]"
| "matches (Group r) (cap, i, s) =
     map (\<lambda>st'. (Some (take (fst (snd st') - i) s), snd st')) (matches r (cap, i, s))"
  by pat_completeness auto
termination
  by (relation "measures [\<lambda>(r, st). size r, \<lambda>(r, st). length (snd (snd st))]") auto

lemmas matches_Star = matches.simps(9)

declare matches.simps(9) [simp del]

text \<open>
  \<open>re.exec(s)\<close> without flag \<open>g\<close>: the leftmost position at which the pattern
  matches, with the first match the matcher finds there. The result is the start index
  and the matcher's final state (capture, end index, rest of the input).
\<close>

fun exec_from :: "regex \<Rightarrow> nat \<Rightarrow> jsstring \<Rightarrow> (nat \<times> mstate) option" where
  "exec_from r i [] = (case matches r (None, i, []) of st # _ \<Rightarrow> Some (i, st) | [] \<Rightarrow> None)"
| "exec_from r i (c # cs) =
     (case matches r (None, i, c # cs) of st # _ \<Rightarrow> Some (i, st) | [] \<Rightarrow> exec_from r (Suc i) cs)"

text \<open>\<open>re.test(s)\<close>\<close>

definition regex_test :: "regex \<Rightarrow> jsstring \<Rightarrow> bool" where
  "regex_test r s = (exec_from r 0 s \<noteq> None)"

text \<open>
  \<open>s.match(re)\<close> followed by \<open>match[1]\<close>: \<open>None\<close> is JavaScript's \<open>null\<close> (no match),
  \<open>Some g\<close> a match whose group 1 captured \<open>g\<close>. In every pattern that the source reads
  \<open>match[1]\<close> of, the group lies on every path through the pattern, so a match always
  has a capture (lemmas \<open>regex_match_capture\<close> and \<open>patterns_capture\<close> below); the case of
  no capture (JavaScript's \<open>undefined\<close>) is given the empty string here and never arises.
\<close>

definition regex_match :: "regex \<Rightarrow> jsstring \<Rightarrow> jsstring option" where
  "regex_match r s =
     (case exec_from r 0 s of
        None \<Rightarrow> None
      | Some (i, (cap, j, rest)) \<Rightarrow> Some (case cap of Some g \<Rightarrow> g | None \<Rightarrow> []))"

text \<open>A pattern in which group 1 lies on every path, so that every match has a capture.\<close>

fun captures :: "regex \<Rightarrow> bool" where
  "captures (Group r) = True"
| "captures (Seq r1 r2) = (captures r1 \<or> captures r2)"
| "captures (Alt r1 r2) = (captures r1 \<and> captures r2)"
| "captures r = False"

text \<open>A pattern in which the code unit \<open>a\<close> lies on every path, so that every match holds it.\<close>

fun needs :: "codeunit \<Rightarrow> regex \<Rightarrow> bool" where
  "needs a (Chr b) = (a = b)"
| "needs a (Seq r1 r2) = (needs a r1 \<or> needs a r2)"
| "needs a (Alt r1 r2) = (needs a r1 \<and> needs a r2)"
| "needs a (Group r) = needs a r"
| "needs a r = False"

text \<open>
  A pattern every match of which consumes at least one code unit and a digit last
  (\<open>endsDigit\<close>), or consumes nothing or a digit last (\<open>emptyOrEndsDigit\<close>).
\<close>

fun endsDigit :: "regex \<Rightarrow> bool" and emptyOrEndsDigit :: "regex \<Rightarrow> bool" where
  "endsDigit (Cls P) = (P = isDigit)"
| "endsDigit (Seq r1 r2) = (endsDigit r2 \<or> (endsDigit r1 \<and> emptyOrEndsDigit r2))"
| "endsDigit (Alt r1 r2) = (endsDigit r1 \<and> endsDigit r2)"
| "endsDigit (Group r) = endsDigit r"
| "endsDigit r = False"
| "emptyOrEndsDigit Eps = True"
| "emptyOrEndsDigit (Cls P) = (P = isDigit)"
| "emptyOrEndsDigit (Seq r1 r2) =
     (endsDigit r2 \<or> (endsDigit r1 \<and> emptyOrEndsDigit r2) \<or> (emptyOrEndsDigit r1 \<and> emptyOrEndsDigit r2))"
| "emptyOrEndsDigit (Alt r1 r2) = (emptyOrEndsDigit r1 \<and> emptyOrEndsDigit r2)"
| "emptyOrEndsDigit (Star r) = emptyOrEndsDigit r"
| "emptyOrEndsDigit (Group r) = emptyOrEndsDigit r"
| "emptyOrEndsDigit r = False"

text \<open>Between the two matcher states the input consumed ends with a digit.\<close>

definition ate_digit :: "mstate \<Rightarrow> mstate \<Rightarrow> bool" where
  "ate_digit st st' = (\<exists>u d. snd (snd st) = u @ d # snd (snd st') \<and> isDigit d)"

text \<open>\<open>s.replace(re, '')\<close> without flag \<open>g\<close>: the first match is removed.\<close>

definition replace_first :: "regex \<Rightarrow> jsstring \<Rightarrow> jsstring" where
  "replace_first r s =
     (case exec_from r 0 s of
        None \<Rightarrow> s
      | Some (i, (cap, j, rest)) \<Rightarrow> take i s @ rest)"

text \<open>
  \<open>s.replace(re, '')\<close> with flag \<open>g\<close>: every match is removed, scanning from the left,
  each search starting where the last match ended. After an empty match the scan steps
  over one code unit, which is kept.
\<close>

function replace_all :: "regex \<Rightarrow> nat \<Rightarrow> jsstring \<Rightarrow> jsstring" where
  "replace_all r i [] = []"
| "replace_all r i (c # cs) =
     (case matches r (None, i, c # cs) of
        [] \<Rightarrow> c # replace_all r (Suc i) cs
      | (cap, j, rest) # _ \<Rightarrow>
          if length rest < length (c # cs) then replace_all r j rest
          else c # replace_all r (Suc i) cs)"
  by pat_completeness auto
termination
  by (relation "measure (\<lambda>(r, i, s). length s)") auto

subsection \<open>The patterns of the source\<close>

definition digit :: regex where
  "digit = Cls isDigit"

definition space :: regex where
  "space = Cls isSpace"

text \<open>\<^verbatim>\<open>/\d+/\<close> and \<^verbatim>\<open>/\d/\<close>\<close>

definition re_digits :: regex where
  "re_digits = Plus digit"

definition re_digit :: regex where
  "re_digit = digit"

text \<open>\<^verbatim>\<open>/(\d+[KM]?\+?)\s*searches?/i\<close>\<close>

definition re_volume :: regex where
  "re_volume =
     Seq (Group (Seq (Plus digit) (Seq (Opt (Alt (ChrI (cu CHR ''K'')) (ChrI (cu CHR ''M'')))) (Opt (Chr (cu CHR ''+''))))))
       (Seq (Star space) (Seq (StrI (js ''searche'')) (Opt (ChrI (cu CHR ''s'')))))"

text \<open>\<^verbatim>\<open>/(\d+\s*(?:hours?|h|minutes?|m)\s*ago)/i\<close>\<close>

definition re_time :: regex where
  "re_time =
     Group (Seq (Plus digit) (Seq (Star space)
       (Seq (Alt (Seq (StrI (js ''hour'')) (Opt (ChrI (cu CHR ''s''))))
            (Alt (ChrI (cu CHR ''h''))
            (Alt (Seq (StrI (js ''minute'')) (Opt (ChrI (cu CHR ''s''))))
                 (ChrI (cu CHR ''m'')))))
       (Seq (Star space) (StrI (js ''ago''))))))"

text \<open>\<^verbatim>\<open>/(\d{1,3}(?:,\d{3})*%)/\<close>\<close>

definition re_percent :: regex where
  "re_percent =
     Group (Seq (Rep1to3 digit) (Seq (Star (Seq (Chr (cu CHR '','')) (Rep3 digit))) (Chr (cu CHR ''%''))))"

text \<open>\<^verbatim>\<open>/arrow_upward(\d{1,3}(?:,\d{3})*%)/\<close>\<close>

definition re_arrow :: regex where
  "re_arrow = Seq (Str (js ''arrow_upward'')) re_percent"

text \<open>\<^verbatim>\<open>/(\d+(?:,\d+)*%)/\<close>\<close>

definition re_loose :: regex where
  "re_loose =
     Group (Seq (Plus digit) (Seq (Star (Seq (Chr (cu CHR '','')) (Plus digit))) (Chr (cu CHR ''%''))))"

text \<open>\<^verbatim>\<open>/^\<middot>/\<close>, the middle dot U+00B7\<close>

definition re_lead_dot :: regex where
  "re_lead_dot = Seq Bol (Chr middot)"

text \<open>\<^verbatim>\<open>/^\<middot>+|\<middot>+$/g\<close>\<close>

definition re_dots :: regex where
  "re_dots = Alt (Seq Bol (Plus (Chr middot))) (Seq (Plus (Chr middot)) Eol)"

text \<open>\<^verbatim>\<open>/^[a-zA-Z\s]+$/\<close>\<close>

definition re_words :: regex where
  "re_words = Seq Bol (Seq (Plus (Cls (\<lambda>c. isAlpha c \<or> isSpace c))) Eol)"

text \<open>\<^verbatim>\<open>/^"|"$/g\<close>\<close>

definition re_quotes :: regex where
  "re_quotes = Alt (Seq Bol (Chr dquote)) (Seq (Chr dquote) Eol)"

section \<open>The cleaner\<close>

record CleanedTrendData =
  trendName :: jsstring
  searchVolume :: jsstring
  timeAgo :: jsstring
  growthPercentage :: jsstring
  relatedSearches :: "jsstring list"

text \<open>
  A JavaScript string in a condition is true when it is not empty; \<open>undefined\<close>
  (here \<open>None\<close>) is false. \<open>a || b\<close> is \<open>a\<close> when \<open>a\<close> is true and \<open>b\<close> otherwise.
\<close>

definition truthy :: "jsstring option \<Rightarrow> bool" where
  "truthy v = (case v of None \<Rightarrow> False | Some s \<Rightarrow> s \<noteq> [])"

definition or_else :: "jsstring option \<Rightarrow> jsstring \<Rightarrow> jsstring" where
  "or_else v d = (case v of None \<Rightarrow> d | Some s \<Rightarrow> if s \<noteq> [] then s else d)"

text \<open>\<open>xs[i]\<close>: \<open>undefined\<close> out of range.\<close>

definition at_index :: "'a list \<Rightarrow> nat \<Rightarrow> 'a option" where
  "at_index xs i = (if i < length xs then Some (xs ! i) else None)"

subsection \<open>The field splitter\<close>

text \<open>\<^verbatim>\<open>current.trim().replace(/^"|"$/g, '')\<close>\<close>

definition stripField :: "jsstring \<Rightarrow> jsstring" where
  "stripField current = replace_all re_quotes 0 (trim current)"

text \<open>
  The loop of \<open>cleanTrendsData\<close> over the indices of \<open>rawData\<close>, from index \<open>i\<close> with the
  loop's variables \<open>current\<close>, \<open>inQuotes\<close> and \<open>fields\<close>; it returns \<open>fields\<close> and
  \<open>current\<close> as they are when the loop ends.
\<close>

function splitLoop :: "jsstring \<Rightarrow> nat \<Rightarrow> jsstring \<Rightarrow> bool \<Rightarrow> jsstring list \<Rightarrow> jsstring list \<times> jsstring" where
  "splitLoop rawData i current inQuotes flds =
     (if i < length rawData then
        (let char = rawData ! i in
         if char = dquote \<and> (i = 0 \<or> rawData ! (i - 1) \<noteq> backslash)
         then splitLoop rawData (i + 1) (current @ [char]) (\<not> inQuotes) flds
         else if char = cu CHR '','' \<and> \<not> inQuotes
         then splitLoop rawData (i + 1) [] inQuotes (flds @ [stripField current])
         else splitLoop rawData (i + 1) (current @ [char]) inQuotes flds)
      else (flds, current))"
  by pat_completeness auto
termination
  by (relation "measure (\<lambda>(rawData, i, current, inQuotes, flds). length rawData - i)") auto

declare splitLoop.simps [simp del]

text \<open>The loop from index 0, and the push of a non-empty \<open>current\<close> after it.\<close>

definition splitFields :: "jsstring \<Rightarrow> jsstring list" where
  "splitFields rawData =
     (case splitLoop rawData 0 [] False [] of
        (flds, current) \<Rightarrow>
          if current \<noteq> [] then flds @ [stripField current] else flds)"

subsection \<open>The classifier\<close>

definition noiseWords :: "jsstring list" where
  "noiseWords = [js ''Search term'', js ''query_statsExplore'', js ''More actions'', js ''Active'',
                 js ''trending_up'', js ''checklistSelect'', js ''more_vert'']"

text \<open>
  \<open>relatedTerms.add(x)\<close> on a JavaScript \<open>Set\<close>, kept as the list of its elements in
  insertion order: an element already in the set is not added again.
\<close>

definition set_add :: "jsstring list \<Rightarrow> jsstring \<Rightarrow> jsstring list" where
  "set_add terms x = (if x \<in> set terms then terms else terms @ [x])"

text \<open>\<^verbatim>\<open>field.replace(/^\<middot>+|\<middot>+$/g, '').trim()\<close>\<close>

definition cleanField :: "jsstring \<Rightarrow> jsstring" where
  "cleanField field = trim (replace_all re_dots 0 field)"

text \<open>The condition under which the \<open>forEach\<close> body adds \<open>cleanField\<close> to \<open>relatedTerms\<close>.\<close>

definition admitted :: "jsstring \<Rightarrow> jsstring \<Rightarrow> bool" where
  "admitted name cf =
     (length cf > 3 \<and>
      \<not> list_ex (\<lambda>noise. str_includes cf noise) noiseWords \<and>
      \<not> str_includes cf name \<and>
      \<not> str_includes cf (js ''searches'') \<and>
      \<not> str_includes cf (js ''%'') \<and>
      \<not> str_includes cf (js ''ago'') \<and>
      regex_test re_words cf)"

text \<open>
  The \<open>forEach\<close> over \<open>fields\<close> that fills \<open>relatedTerms\<close>, then
  \<open>Array.from(relatedTerms).slice(0, 5)\<close>.
\<close>

definition relatedTerms :: "jsstring \<Rightarrow> jsstring list \<Rightarrow> jsstring list" where
  "relatedTerms name flds =
     foldl (\<lambda>terms field.
              if admitted name (cleanField field) then set_add terms (cleanField field) else terms)
       [] flds"

definition extractVolume :: "jsstring list \<Rightarrow> jsstring" where
  "extractVolume flds =
     (let volumeMatch = find (\<lambda>field. str_includes field (js ''searches'') \<and>
                          (str_includes field (js ''K+'') \<or> str_includes field (js ''M+'') \<or>
                           regex_test re_digits field)) flds
      in if truthy volumeMatch
         then (case regex_match re_volume (the volumeMatch) of Some g \<Rightarrow> g | None \<Rightarrow> [])
         else [])"

definition extractTime :: "jsstring list \<Rightarrow> jsstring" where
  "extractTime flds =
     (let timeMatch = find (\<lambda>field. str_includes field (js ''ago'') \<or> str_includes field (js ''hours ago'') \<or>
                          str_includes field (js ''h ago'') \<or> str_includes field (js ''m ago'')) flds
      in if truthy timeMatch
         then (case regex_match re_time (the timeMatch) of
                 Some g \<Rightarrow> g
               | None \<Rightarrow> trim (replace_first re_lead_dot (the timeMatch)))
         else [])"

definition extractGrowth :: "jsstring \<Rightarrow> jsstring list \<Rightarrow> jsstring" where
  "extractGrowth rawData flds =
     (case regex_match re_percent rawData of
        Some g \<Rightarrow> g
      | None \<Rightarrow>
          (let growthMatch = find (\<lambda>field. str_includes field (js ''%'') \<and> regex_test re_digit field) flds
           in if truthy growthMatch
              then (case regex_match re_arrow (the growthMatch) of
                      Some g \<Rightarrow> g
                    | None \<Rightarrow>
                       (case regex_match re_percent (the growthMatch) of
                          Some g \<Rightarrow> g
                        | None \<Rightarrow>
                           (case regex_match re_loose (the growthMatch) of
                              Some g \<Rightarrow> g
                            | None \<Rightarrow> [])))
              else []))"

text \<open>
  \<open>cleanTrendsData\<close> of the quote-aware cleaner. The record starts with every field
  empty, and each block of the function assigns one field.
\<close>

definition cleanTrendsData :: "jsstring \<Rightarrow> CleanedTrendData" where
  "cleanTrendsData rawData =
     (let flds = splitFields rawData;
          name = or_else (at_index flds 0) []
      in \<lparr> trendName = name,
           searchVolume = extractVolume flds,
           timeAgo = extractTime flds,
           growthPercentage = extractGrowth rawData flds,
           relatedSearches = take 5 (relatedTerms name flds) \<rparr>)"

text \<open>A row of \<open>cleanTrendsDataArray\<close>'s input: \<open>string | string[]\<close>.\<close>

datatype rawRow = Blob jsstring | Fragments "jsstring list"

text \<open>The text of a row that \<open>cleanTrendsDataArray\<close> hands to \<open>cleanTrendsData\<close>.\<close>

definition rowBlob :: "rawRow \<Rightarrow> jsstring" where
  "rowBlob row = (case row of Fragments fs \<Rightarrow> join (js '','') fs | Blob s \<Rightarrow> s)"

definition cleanTrendsDataArray :: "rawRow list \<Rightarrow> CleanedTrendData list" where
  "cleanTrendsDataArray rawDataArray =
     map (\<lambda>row. case row of
                  Fragments fs \<Rightarrow> cleanTrendsData (join (js '','') fs)
                | Blob s \<Rightarrow> cleanTrendsData s)
       rawDataArray"

subsection \<open>The serializer\<close>

definition headers :: "jsstring list" where
  "headers = [js ''Trend Name'', js ''Search Volume'', js ''Time Ago'', js ''Growth %'', js ''Related Searches'']"

definition quoted :: "jsstring \<Rightarrow> jsstring" where
  "quoted s = [dquote] @ s @ [dquote]"

definition csvRow :: "CleanedTrendData \<Rightarrow> jsstring list" where
  "csvRow item =
     [quoted (trendName item), quoted (searchVolume item), quoted (timeAgo item),
      quoted (growthPercentage item), quoted (join (js ''; '') (relatedSearches item))]"

definition convertCleanedDataToCSV :: "CleanedTrendData list \<Rightarrow> jsstring" where
  "convertCleanedDataToCSV cleanedDataArray =
     foldl (\<lambda>csv item. csv @ join (js '','') (csvRow item) @ [newline])
       (join (js '','') headers @ [newline]) cleanedDataArray"

subsection \<open>The simple cleaner\<close>

text \<open>
  The repository holds a second \<open>cleanTrendsData\<close>, in \<open>cleaner.tsx\<close>: it splits on every
  comma, removes every double quote of a field, knows hours only and reads the growth
  percentage from the fields alone. Its related-searches block, \<open>cleanTrendsDataArray\<close>
  and \<open>convertCleanedDataToCSV\<close> are the same text as the quote-aware cleaner's.
\<close>

text \<open>\<^verbatim>\<open>/"/g\<close>\<close>

definition re_any_quote :: regex where
  "re_any_quote = Chr dquote"

text \<open>\<^verbatim>\<open>/(\d+\s*(?:hours?|h)\s*ago)/i\<close>\<close>

definition re_time_hours :: regex where
  "re_time_hours =
     Group (Seq (Plus digit) (Seq (Star space)
       (Seq (Alt (Seq (StrI (js ''hour'')) (Opt (ChrI (cu CHR ''s'')))) (ChrI (cu CHR ''h'')))
       (Seq (Star space) (StrI (js ''ago''))))))"

text \<open>\<^verbatim>\<open>/(\d+,?\d*%)/\<close>\<close>

definition re_growth_simple :: regex where
  "re_growth_simple =
     Group (Seq (Plus digit) (Seq (Opt (Chr (cu CHR '',''))) (Seq (Star digit) (Chr (cu CHR ''%'')))))"

text \<open>\<^verbatim>\<open>rawData.split(',').map(field => field.replace(/"/g, '').trim())\<close>\<close>

definition simpleFields :: "jsstring \<Rightarrow> jsstring list" where
  "simpleFields rawData =
     map (\<lambda>field. trim (replace_all re_any_quote 0 field)) (split (cu CHR '','') rawData)"

definition simpleTime :: "jsstring list \<Rightarrow> jsstring" where
  "simpleTime flds =
     (let timeMatch = find (\<lambda>field. str_includes field (js ''ago'') \<or> str_includes field (js ''hours ago'') \<or>
                          str_includes field (js ''h ago'')) flds
      in if truthy timeMatch
         then (case regex_match re_time_hours (the timeMatch) of
                 Some g \<Rightarrow> g
               | None \<Rightarrow> trim (replace_first re_lead_dot (the timeMatch)))
         else [])"

definition simpleGrowth :: "jsstring list \<Rightarrow> jsstring" where
  "simpleGrowth flds =
     (let growthMatch = find (\<lambda>field. str_includes field (js ''%'') \<and>
                          (str_includes field (js ''arrow_upward'') \<or> regex_test re_digits field)) flds
      in if truthy growthMatch
         then (case regex_match re_growth_simple (the growthMatch) of Some g \<Rightarrow> g | None \<Rightarrow> [])
         else [])"

definition simpleCleanTrendsData :: "jsstring \<Rightarrow> CleanedTrendData" where
  "simpleCleanTrendsData rawData =
     (let flds = simpleFields rawData;
          name = or_else (at_index flds 0) []
      in \<lparr> trendName = name,
           searchVolume = extractVolume flds,
           timeAgo = simpleTime flds,
           growthPercentage = simpleGrowth flds,
           relatedSearches = take 5 (relatedTerms name flds) \<rparr>)"

definition simpleCleanTrendsDataArray :: "rawRow list \<Rightarrow> CleanedTrendData list" where
  "simpleCleanTrendsDataArray rawDataArray =
     map (\<lambda>row. case row of
                  Fragments fs \<Rightarrow> simpleCleanTrendsData (join (js '','') fs)
                | Blob s \<Rightarrow> simpleCleanTrendsData s)
       rawDataArray"

section \<open>The downstream reader\<close>

text \<open>
  \<open>evaluateTopics\<close> reads the file the serializer wrote: it drops the header line and
  the blank lines, and builds one \<open>CleanedTrendData\<close> from each remaining line, which it
  passes to the classifier. A line whose first cell is empty is skipped.
\<close>

text \<open>\<^verbatim>\<open>field.replace(/^"|"$/g, '').trim()\<close>\<close>

definition csvCell :: "jsstring \<Rightarrow> jsstring" where
  "csvCell field = trim (replace_all re_quotes 0 field)"

text \<open>
  The body of the loop over the lines, up to \<open>trendData\<close>; \<open>None\<close> is the \<open>continue\<close>
  of a line with no name.
\<close>

definition parseLine :: "jsstring \<Rightarrow> CleanedTrendData option" where
  "parseLine line =
     (let cells = map csvCell (split (cu CHR '','') line);
          name = at_index cells 0;
          volume = at_index cells 1;
          ago = at_index cells 2;
          growth = at_index cells 3;
          related = at_index cells 4
      in if \<not> truthy name then None
         else Some \<lparr> trendName = the name,
                     searchVolume = or_else volume [],
                     timeAgo = or_else ago [],
                     growthPercentage = or_else growth [],
                     relatedSearches =
                       (if truthy related then map trim (split (cu CHR '';'') (the related)) else []) \<rparr>)"

text \<open>\<^verbatim>\<open>csvContent.split('\n').slice(1).filter(line => line.trim())\<close>\<close>

definition csvLines :: "jsstring \<Rightarrow> jsstring list" where
  "csvLines csvContent = filter (\<lambda>line. trim line \<noteq> []) (drop 1 (split newline csvContent))"

text \<open>The records \<open>evaluateTopics\<close> builds from a file's content, in the order of its lines.\<close>

definition parsedTrends :: "jsstring \<Rightarrow> CleanedTrendData list" where
  "parsedTrends csvContent = List.map_filter parseLine (csvLines csvContent)"

section \<open>The descriptions the theorems compare the code with\<close>

subsection \<open>Splitting at top-level commas\<close>

text \<open>
  A double quote is unescaped when no backslash stands right before it. A position is
  inside quotes when an odd number of unescaped double quotes stand before it. A
  top-level comma is a comma at a position that is not inside quotes.
\<close>

definition unescapedQuoteAt :: "jsstring \<Rightarrow> nat \<Rightarrow> bool" where
  "unescapedQuoteAt raw j = (raw ! j = dquote \<and> (j = 0 \<or> raw ! (j - 1) \<noteq> backslash))"

definition insideQuotes :: "jsstring \<Rightarrow> nat \<Rightarrow> bool" where
  "insideQuotes raw i = odd (length (filter (unescapedQuoteAt raw) [0..<i]))"

definition topLevelComma :: "jsstring \<Rightarrow> nat \<Rightarrow> bool" where
  "topLevelComma raw i = (raw ! i = cu CHR '','' \<and> \<not> insideQuotes raw i)"

definition topLevelCommas :: "jsstring \<Rightarrow> nat list" where
  "topLevelCommas raw = filter (topLevelComma raw) [0..<length raw]"

text \<open>The pieces of \<open>raw\<close> from index \<open>start\<close> on, cut at the given positions, which are left out.\<close>

fun cutAt :: "jsstring \<Rightarrow> nat \<Rightarrow> nat list \<Rightarrow> jsstring list" where
  "cutAt raw start [] = [drop start raw]"
| "cutAt raw start (c # cs) = take (c - start) (drop start raw) # cutAt raw (Suc c) cs"

definition segments :: "jsstring \<Rightarrow> jsstring list" where
  "segments raw = cutAt raw 0 (topLevelCommas raw)"

text \<open>Content after the last delimiter is a field of its own; no content, no field.\<close>

definition emitted :: "jsstring list \<Rightarrow> jsstring list" where
  "emitted segs = (if last segs = [] then butlast segs else segs)"

subsection \<open>The double quotes at the ends of a field\<close>

text \<open>
  What \<^verbatim>\<open>replace(/^"|"$/g, '')\<close> does (lemma \<open>replace_quotes\<close>): one double quote is
  taken from the front if one stands there, and then one from the back if one stands
  there, each end on its own.
\<close>

definition stripQuotes :: "jsstring \<Rightarrow> jsstring" where
  "stripQuotes t =
     (let t1 = (case t of [] \<Rightarrow> [] | c # cs \<Rightarrow> if c = dquote then cs else t)
      in if t1 \<noteq> [] \<and> last t1 = dquote then butlast t1 else t1)"

subsection \<open>The specification's wording of a field\<close>

text \<open>
  The specification's words for a produced field: leading and trailing white space is
  removed, and a single pair of wrapping double quotes, if present, is stripped. A text is
  wrapped when it starts and ends with a double quote, and these are two code units. The
  pair is looked for once the white space around it is gone, and the produced field has
  no white space at either end.
\<close>

definition wrappedInQuotes :: "jsstring \<Rightarrow> bool" where
  "wrappedInQuotes t = (2 \<le> length t \<and> hd t = dquote \<and> last t = dquote)"

definition stripPair :: "jsstring \<Rightarrow> jsstring" where
  "stripPair t = (if wrappedInQuotes t then butlast (tl t) else t)"

definition spec_field :: "jsstring \<Rightarrow> jsstring" where
  "spec_field seg = trim (stripPair (trim seg))"

definition spec_splitFields :: "jsstring \<Rightarrow> jsstring list" where
  "spec_splitFields raw = map spec_field (emitted (segments raw))"

subsection \<open>The specification's wording of the elapsed time\<close>

text \<open>
  The first field that contains \<open>ago\<close>; the group that
  \<^verbatim>\<open>(\d+\s*(?:hours?|h|minutes?|m)\s*ago)\<close> captures in it, ignoring case; without a match the
  field itself, a leading middle dot stripped and white space trimmed; the empty string
  when no field contains \<open>ago\<close>.
\<close>

definition spec_timeAgo :: "jsstring list \<Rightarrow> jsstring" where
  "spec_timeAgo flds =
     (case find (\<lambda>field. str_includes field (js ''ago'')) flds of
        None \<Rightarrow> []
      | Some field \<Rightarrow>
          (case regex_match re_time field of
             Some g \<Rightarrow> g
           | None \<Rightarrow> trim (case field of [] \<Rightarrow> [] | c # cs \<Rightarrow> if c = middot then cs else field)))"

subsection \<open>A digit right before a percent sign\<close>

fun digitPercent :: "jsstring \<Rightarrow> bool" where
  "digitPercent (d # p # rest) = (isDigit d \<and> p = cu CHR ''%'' \<or> digitPercent (p # rest))"
| "digitPercent s = False"

subsection \<open>The round trip through the file\<close>

definition coreFields :: "CleanedTrendData \<Rightarrow> jsstring \<times> jsstring \<times> jsstring \<times> jsstring" where
  "coreFields r = (trendName r, searchVolume r, timeAgo r, growthPercentage r)"

definition roundTrips :: "CleanedTrendData list \<Rightarrow> bool" where
  "roundTrips rs = (map coreFields (parsedTrends (convertCleanedDataToCSV rs)) = map coreFields rs)"

text \<open>A value the naive reader gets back: no comma, no line feed, no white space at either end.\<close>

definition plainField :: "jsstring \<Rightarrow> bool" where
  "plainField f = ((cu CHR '','') \<notin> set f \<and> newline \<notin> set f \<and> trim f = f)"

definition plainRecord :: "CleanedTrendData \<Rightarrow> bool" where
  "plainRecord r =
     (trendName r \<noteq> [] \<and> plainField (trendName r) \<and> plainField (searchVolume r) \<and>
      plainField (timeAgo r) \<and> plainField (growthPercentage r) \<and>
      list_all (\<lambda>t. newline \<notin> set t) (relatedSearches r))"

subsection \<open>Scenario A\<close>

text \<open>
  The raw blob of the specification's Scenario A:
  \<^verbatim>\<open>"brett james","200K+ searches.trending_upActive.20h ago","200K+arrow_upward1,000%","brett james plane crash","Search term"\<close>
  where each \<^verbatim>\<open>.\<close> of the second field stands for a middle dot.
\<close>

definition scenarioA :: jsstring where
  \<open>scenarioA =
     (js ''"brett james","200K+ searches'') @ [middot] @ (js ''trending_upActive'') @ [middot] @
     (js ''20h ago","200K+arrow_upward1,000%","brett james plane crash","Search term"'')\<close>

subsection \<open>A row with more than five candidates\<close>

definition sixTerms :: jsstring where
  "sixTerms = js ''zq,plane crash,songs,songs,zq songs,Search term,efgh,ijkl,mnop,qrst''"

subsection \<open>A line of the file\<close>

text \<open>The text the serializer writes for one record, before the line feed.\<close>

definition rowText :: "CleanedTrendData \<Rightarrow> jsstring" where
  "rowText item = join (js '','') (csvRow item)"

subsection \<open>Sample inputs\<close>

definition plainRows :: "CleanedTrendData list" where
  "plainRows =
     [\<lparr> trendName = js ''brett james'', searchVolume = js ''200K+'', timeAgo = js ''20h ago'',
        growthPercentage = js ''900%'', relatedSearches = [js ''plane crash'', js ''songs, live''] \<rparr>,
      \<lparr> trendName = js ''x'', searchVolume = [], timeAgo = [],
        growthPercentage = [], relatedSearches = [] \<rparr>]"

definition threeRows :: "rawRow list" where
  "threeRows = [Blob (js ''zq,songs''), Fragments [], Fragments [js ''ab'', js ''12 searches'']]"

section \<open>Strings and patterns: basic facts\<close>

lemma js_append: "js (a @ b) = js a @ js b"
  by (simp add: js_def)

lemma quotes_later:
  "0 < i \<Longrightarrow> matches re_quotes (None, i, s) = (if s = [dquote] then [(None, Suc i, [])] else [])"
  by (cases s) (auto simp: re_quotes_def split: list.splits)

lemma quotes_first:
  "matches re_quotes (None, 0, c # cs) =
     (if c = dquote then (None, Suc 0, cs) # (if cs = [] then [(None, Suc 0, [])] else []) else [])"
  by (auto simp: re_quotes_def split: list.splits)

lemma replace_quotes_later:
  "0 < i \<Longrightarrow> replace_all re_quotes i s = (if s \<noteq> [] \<and> last s = dquote then butlast s else s)"
proof (induction s arbitrary: i)
  case Nil
  then show ?case by simp
next
  case (Cons c cs)
  have IH: "replace_all re_quotes (Suc i) cs = (if cs \<noteq> [] \<and> last cs = dquote then butlast cs else cs)"
    by (rule Cons.IH) simp
  show ?case
  proof (cases "c # cs = [dquote]")
    case True
    then show ?thesis using Cons.prems by (simp add: quotes_later)
  next
    case False
    then have "replace_all re_quotes i (c # cs) = c # replace_all re_quotes (Suc i) cs"
      using Cons.prems by (simp add: quotes_later)
    then show ?thesis using False by (auto simp: IH)
  qed
qed

lemma replace_quotes: "replace_all re_quotes 0 t = stripQuotes t"
proof (cases t)
  case Nil
  then show ?thesis by (simp add: stripQuotes_def)
next
  case (Cons c cs)
  show ?thesis
  proof (cases "c = dquote")
    case True
    then have "replace_all re_quotes 0 (c # cs) = replace_all re_quotes (Suc 0) cs"
      by (simp add: quotes_first)
    then show ?thesis using Cons True by (simp add: replace_quotes_later stripQuotes_def)
  next
    case False
    then have "replace_all re_quotes 0 (c # cs) = c # replace_all re_quotes (Suc 0) cs"
      by (simp add: quotes_first)
    then show ?thesis using Cons False by (auto simp: replace_quotes_later stripQuotes_def)
  qed
qed

lemma stripField_eq: "stripField current = stripQuotes (trim current)"
  by (simp add: stripField_def replace_quotes)

lemma lead_dot_later: "0 < i \<Longrightarrow> exec_from re_lead_dot i s = None"
  by (induction s arbitrary: i) (simp_all add: re_lead_dot_def)

lemma replace_lead_dot:
  "replace_first re_lead_dot f = (case f of [] \<Rightarrow> [] | c # cs \<Rightarrow> if c = middot then cs else f)"
  by (cases f) (simp_all add: replace_first_def re_lead_dot_def lead_dot_later[unfolded re_lead_dot_def])

lemma exec_cls: "exec_from (Cls P) i s \<noteq> None \<longleftrightarrow> (\<exists>c \<in> set s. P c)"
  by (induction s arbitrary: i) auto

lemma test_digit: "regex_test re_digit f \<longleftrightarrow> (\<exists>c \<in> set f. isDigit c)"
  using exec_cls[of isDigit 0 f] by (simp add: regex_test_def re_digit_def digit_def)

lemma matches_star_nonempty: "matches (Star r) st \<noteq> []"
proof -
  obtain cap i s where "st = (cap, i, s)" by (cases st) auto
  then show ?thesis by (simp only: matches_Star) simp
qed

lemma matches_plus_cls:
  "matches (Plus (Cls P)) (cap, i, s) = [] \<longleftrightarrow> (case s of [] \<Rightarrow> True | c # cs \<Rightarrow> \<not> P c)"
  by (cases s) (simp_all add: Plus_def matches_star_nonempty)

lemma exec_plus_cls: "exec_from (Plus (Cls P)) i s \<noteq> None \<longleftrightarrow> (\<exists>c \<in> set s. P c)"
proof (induction s arbitrary: i)
  case Nil
  then show ?case by (simp add: Plus_def)
next
  case (Cons c cs)
  show ?case
  proof (cases "P c")
    case True
    then have "matches (Plus (Cls P)) (None, i, c # cs) \<noteq> []" by (simp add: matches_plus_cls)
    then show ?thesis using True by (auto split: list.splits)
  next
    case False
    then have "matches (Plus (Cls P)) (None, i, c # cs) = []" by (simp add: matches_plus_cls)
    then show ?thesis using False Cons.IH by simp
  qed
qed

lemma test_digits: "regex_test re_digits f \<longleftrightarrow> (\<exists>c \<in> set f. isDigit c)"
  using exec_plus_cls[of isDigit 0 f] by (simp add: regex_test_def re_digits_def digit_def)


subsection \<open>The matcher\<close>

text \<open>
  Every state the matcher returns lies further on in the same input, so the test on the
  lengths in \<open>matches\<close> of a \<open>Star\<close> drops exactly the iterations that consumed
  nothing, and the one in \<open>replace_all\<close> catches exactly the empty match.
\<close>

lemma matches_suffix:
  "st' \<in> set (matches r st) \<Longrightarrow>
   \<exists>u. snd (snd st) = u @ snd (snd st') \<and> fst (snd st') = fst (snd st) + length u"
proof (induction r st arbitrary: st' rule: matches.induct)
  case (7 r1 r2 st)
  then obtain m where m: "m \<in> set (matches r1 st)" and s: "st' \<in> set (matches r2 m)"
    by auto
  from "7.IH"(1)[OF m] obtain u where u: "snd (snd st) = u @ snd (snd m)" "fst (snd m) = fst (snd st) + length u"
    by blast
  from "7.IH"(2)[OF m s] obtain v where v: "snd (snd m) = v @ snd (snd st')" "fst (snd st') = fst (snd m) + length v"
    by blast
  from u v have "snd (snd st) = (u @ v) @ snd (snd st') \<and> fst (snd st') = fst (snd st) + length (u @ v)"
    by simp
  then show ?case by blast
next
  case (9 r cap i s)
  from "9.prems" consider
      (zero) "st' = (cap, i, s)"
    | (more) m where "m \<in> set (matches r (cap, i, s))" "length (snd (snd m)) < length s"
        "st' \<in> set (matches (Star r) m)"
    by (subst (asm) matches_Star) auto
  then show ?case
  proof cases
    case zero
    then show ?thesis by simp
  next
    case more
    from "9.IH"(1)[OF more(1)] obtain u where u: "s = u @ snd (snd m)" "fst (snd m) = i + length u"
      by auto
    from "9.IH"(2)[of m st'] more obtain v where
      v: "snd (snd m) = v @ snd (snd st')" "fst (snd st') = fst (snd m) + length v"
      by auto
    from u v have "s = (u @ v) @ snd (snd st') \<and> fst (snd st') = i + length (u @ v)"
      by simp
    then show ?thesis by (metis fst_conv snd_conv)
  qed
next
  case (10 r cap i s)
  then obtain m where m: "m \<in> set (matches r (cap, i, s))" and e: "snd st' = snd m" by auto
  from "10.IH"[OF m] e show ?case by simp
qed (auto split: list.splits if_splits)

lemma matches_keeps_capture:
  "st' \<in> set (matches r st) \<Longrightarrow> fst st \<noteq> None \<Longrightarrow> fst st' \<noteq> None"
proof (induction r st arbitrary: st' rule: matches.induct)
  case (7 r1 r2 st)
  then obtain m where m: "m \<in> set (matches r1 st)" and s: "st' \<in> set (matches r2 m)"
    by auto
  from "7.IH"(1)[OF m "7.prems"(2)] have "fst m \<noteq> None" .
  from "7.IH"(2)[OF m s this] show ?case .
next
  case (9 r cap i s)
  from "9.prems" consider
      (zero) "st' = (cap, i, s)"
    | (more) m where "m \<in> set (matches r (cap, i, s))" "length (snd (snd m)) < length s"
        "st' \<in> set (matches (Star r) m)"
    by (subst (asm) matches_Star) auto
  then show ?case
  proof cases
    case zero
    then show ?thesis using "9.prems" by simp
  next
    case more
    from "9.IH"(1)[OF more(1)] "9.prems"(2) have "fst m \<noteq> None" by simp
    with "9.IH"(2)[of m st'] more show ?thesis by auto
  qed
qed (auto split: list.splits if_splits)

lemma matches_sets_capture:
  "captures r \<Longrightarrow> st' \<in> set (matches r st) \<Longrightarrow> fst st' \<noteq> None"
proof (induction r arbitrary: st st')
  case (Seq r1 r2)
  then obtain m where m: "m \<in> set (matches r1 st)" and s: "st' \<in> set (matches r2 m)"
    by auto
  show ?case
  proof (cases "captures r2")
    case True
    then show ?thesis using Seq.IH(2) s by blast
  next
    case False
    with Seq.prems have "captures r1" by simp
    then have "fst m \<noteq> None" using Seq.IH(1) m by blast
    then show ?thesis using matches_keeps_capture[OF s] by blast
  qed
next
  case (Alt r1 r2)
  then have c: "captures r1" "captures r2" by simp_all
  from Alt.prems(2) have "st' \<in> set (matches r1 st) \<or> st' \<in> set (matches r2 st)" by simp
  then show ?case using Alt.IH(1)[OF c(1)] Alt.IH(2)[OF c(2)] by blast
next
  case (Group r)
  then show ?case by (cases st) auto
qed simp_all

lemma exec_from_in_matches:
  "exec_from r i s = Some (k, st') \<Longrightarrow> \<exists>i' s'. st' \<in> set (matches r (None, i', s'))"
proof (induction s arbitrary: i)
  case Nil
  then have "st' \<in> set (matches r (None, i, []))"
    by (cases "matches r (None, i, [])") auto
  then show ?case by blast
next
  case (Cons c cs)
  show ?case
  proof (cases "matches r (None, i, c # cs)")
    case Nil
    with Cons.prems have "exec_from r (Suc i) cs = Some (k, st')" by simp
    then show ?thesis by (rule Cons.IH)
  next
    case (Cons m ms)
    with Cons.prems have "st' \<in> set (matches r (None, i, c # cs))" by simp
    then show ?thesis by blast
  qed
qed

lemma regex_match_capture:
  assumes "captures r"
  shows "regex_match r s = Some g \<longleftrightarrow> (\<exists>i j rest. exec_from r 0 s = Some (i, Some g, j, rest))"
proof (cases "exec_from r 0 s")
  case None
  then show ?thesis by (simp add: regex_match_def)
next
  case (Some m)
  obtain i cap j rest where m: "m = (i, cap, j, rest)" by (cases m) auto
  with Some obtain st where "(cap, j, rest) \<in> set (matches r st)"
    using exec_from_in_matches[of r 0 s i "(cap, j, rest)"] by blast
  with assms have "cap \<noteq> None" using matches_sets_capture by fastforce
  then obtain g' where "cap = Some g'" by auto
  with Some m show ?thesis by (auto simp: regex_match_def)
qed

lemma patterns_capture:
  "captures re_volume" "captures re_time" "captures re_percent" "captures re_arrow"
  "captures re_loose" "captures re_time_hours" "captures re_growth_simple"
  by (simp_all add: re_volume_def re_time_def re_percent_def re_arrow_def re_loose_def
        re_time_hours_def re_growth_simple_def)

lemma matches_needs:
  "needs a r \<Longrightarrow> st' \<in> set (matches r st) \<Longrightarrow> a \<in> set (snd (snd st))"
proof (induction r arbitrary: st st')
  case (Chr b)
  then show ?case by (cases st) (auto split: list.splits if_splits)
next
  case (Seq r1 r2)
  then obtain m where m: "m \<in> set (matches r1 st)" and s: "st' \<in> set (matches r2 m)"
    by auto
  show ?case
  proof (cases "needs a r1")
    case True
    then show ?thesis using Seq.IH(1) m by blast
  next
    case False
    with Seq.prems have "needs a r2" by simp
    then have "a \<in> set (snd (snd m))" using Seq.IH(2) s by blast
    moreover obtain u where "snd (snd st) = u @ snd (snd m)"
      using matches_suffix[OF m] by blast
    ultimately show ?thesis by simp
  qed
next
  case (Alt r1 r2)
  then have c: "needs a r1" "needs a r2" by simp_all
  from Alt.prems(2) have "st' \<in> set (matches r1 st) \<or> st' \<in> set (matches r2 st)" by simp
  then show ?case using Alt.IH(1)[OF c(1)] Alt.IH(2)[OF c(2)] by blast
next
  case (Group r)
  then show ?case by (cases st) auto
qed simp_all

lemma exec_from_needs:
  "needs a r \<Longrightarrow> exec_from r i s = Some m \<Longrightarrow> a \<in> set s"
proof (induction s arbitrary: i)
  case Nil
  then obtain st' where "st' \<in> set (matches r (None, i, []))"
    by (cases "matches r (None, i, [])") auto
  with Nil.prems(1) show ?case using matches_needs by fastforce
next
  case (Cons c cs)
  show ?case
  proof (cases "matches r (None, i, c # cs)")
    case Nil
    with Cons.prems have "exec_from r (Suc i) cs = Some m" by simp
    with Cons.IH Cons.prems(1) show ?thesis by auto
  next
    case (Cons st' ms)
    then have "st' \<in> set (matches r (None, i, c # cs))" by simp
    with Cons.prems(1) show ?thesis using matches_needs by fastforce
  qed
qed

lemma regex_match_needs: "needs a r \<Longrightarrow> a \<notin> set s \<Longrightarrow> regex_match r s = None"
  using exec_from_needs[of a r 0 s] by (cases "exec_from r 0 s") (auto simp: regex_match_def)

section \<open>The related searches\<close>

lemma str_includes_empty: "str_includes s []"
  by (induction s) auto

lemma str_includes_iff: "str_includes s p \<longleftrightarrow> (\<exists>a b. s = a @ p @ b)"
proof (induction s)
  case Nil
  then show ?case by auto
next
  case (Cons c cs)
  show ?case
  proof
    assume "str_includes (c # cs) p"
    then consider "prefix p (c # cs)" | "str_includes cs p" by auto
    then show "\<exists>a b. c # cs = a @ p @ b"
    proof cases
      case 1
      then obtain b where "c # cs = p @ b" by (auto simp: prefix_def)
      then have "c # cs = [] @ p @ b" by simp
      then show ?thesis by blast
    next
      case 2
      with Cons.IH obtain a b where "cs = a @ p @ b" by blast
      then have "c # cs = (c # a) @ p @ b" by simp
      then show ?thesis by blast
    qed
  next
    assume "\<exists>a b. c # cs = a @ p @ b"
    then obtain a b where ab: "c # cs = a @ p @ b" by blast
    show "str_includes (c # cs) p"
    proof (cases a)
      case Nil
      with ab have "prefix p (c # cs)" by (simp add: prefix_def)
      then show ?thesis by simp
    next
      case (Cons x a')
      with ab have "cs = a' @ p @ b" by simp
      with Cons.IH have "str_includes cs p" by blast
      then show ?thesis by simp
    qed
  qed
qed

lemma set_add_distinct: "distinct terms \<Longrightarrow> distinct (set_add terms x)"
  by (simp add: set_add_def)

lemma set_set_add: "set (set_add terms x) = insert x (set terms)"
  by (auto simp: set_add_def)

lemma relatedTerms_foldl_distinct:
  "distinct acc \<Longrightarrow>
   distinct (foldl (\<lambda>terms field.
      if admitted name (cleanField field) then set_add terms (cleanField field) else terms) acc flds)"
  by (induction flds arbitrary: acc) (simp_all add: set_add_distinct)

lemma relatedTerms_foldl_set:
  "set (foldl (\<lambda>terms field.
      if admitted name (cleanField field) then set_add terms (cleanField field) else terms) acc flds)
   = set acc \<union> {cleanField f | f. f \<in> set flds \<and> admitted name (cleanField f)}"
  by (induction flds arbitrary: acc) (auto simp: set_set_add)

lemma distinct_relatedTerms: "distinct (relatedTerms name flds)"
  unfolding relatedTerms_def by (rule relatedTerms_foldl_distinct) simp

lemma set_relatedTerms:
  "set (relatedTerms name flds) = {cleanField f | f. f \<in> set flds \<and> admitted name (cleanField f)}"
  unfolding relatedTerms_def by (simp add: relatedTerms_foldl_set)

lemma relatedTerms_admitted: "e \<in> set (relatedTerms name flds) \<Longrightarrow> admitted name e"
  by (auto simp: set_relatedTerms)

lemma admitted_empty_name: "\<not> admitted [] cf"
  by (simp add: admitted_def str_includes_empty)

lemma relatedTerms_empty_name: "relatedTerms [] flds = []"
proof -
  have "set (relatedTerms [] flds) = {}"
    by (simp add: set_relatedTerms admitted_empty_name)
  then show ?thesis by simp
qed

lemma trendName_clean: "trendName (cleanTrendsData rawData) = or_else (at_index (splitFields rawData) 0) []"
  by (simp add: cleanTrendsData_def Let_def)

lemma relatedSearches_clean:
  "relatedSearches (cleanTrendsData rawData) =
     take 5 (relatedTerms (trendName (cleanTrendsData rawData)) (splitFields rawData))"
  by (simp add: cleanTrendsData_def Let_def)


section \<open>The splitter cuts at the top-level commas\<close>

lemma cutAt_nonempty: "cutAt raw st cuts \<noteq> []"
  by (cases cuts) simp_all

lemma insideQuotes_0: "insideQuotes raw 0 = False"
  by (simp add: insideQuotes_def)

lemma insideQuotes_Suc:
  "insideQuotes raw (Suc i) = (if unescapedQuoteAt raw i then \<not> insideQuotes raw i else insideQuotes raw i)"
  by (simp add: insideQuotes_def)

lemma take_drop_step:
  assumes "st \<le> i" "i < length raw"
  shows "take (Suc i - st) (drop st raw) = take (i - st) (drop st raw) @ [raw ! i]"
proof -
  have k: "i - st < length (drop st raw)" using assms by simp
  have "take (Suc (i - st)) (drop st raw) = take (i - st) (drop st raw) @ [drop st raw ! (i - st)]"
    using k by (rule take_Suc_conv_app_nth)
  moreover have "drop st raw ! (i - st) = raw ! i" using assms by simp
  moreover have "Suc i - st = Suc (i - st)" using assms by simp
  ultimately show ?thesis by simp
qed

lemma splitLoop_cutAt:
  "st \<le> i \<Longrightarrow> i \<le> length raw \<Longrightarrow>
   splitLoop raw i (take (i - st) (drop st raw)) (insideQuotes raw i) flds =
     (flds @ map stripField (butlast (cutAt raw st (filter (topLevelComma raw) [i..<length raw]))),
      last (cutAt raw st (filter (topLevelComma raw) [i..<length raw])))"
proof (induction "length raw - i" arbitrary: i st flds)
  case 0
  then have "i = length raw" by simp
  then show ?case by (simp add: splitLoop.simps)
next
  case (Suc n)
  then have lt: "i < length raw" and st: "st \<le> i" by simp_all
  have upt: "[i..<length raw] = i # [Suc i..<length raw]"
    using lt by (rule upt_conv_Cons)
  have cur: "take (i - st) (drop st raw) @ [raw ! i] = take (Suc i - st) (drop st raw)"
    using take_drop_step[OF st lt] by simp
  have n: "n = length raw - Suc i" using Suc.hyps(2) by simp
  note IH = Suc.hyps(1)[OF n]
  show ?case
  proof (cases "raw ! i = dquote \<and> (i = 0 \<or> raw ! (i - 1) \<noteq> backslash)")
    case True
    then have uq: "unescapedQuoteAt raw i" by (simp add: unescapedQuoteAt_def)
    have nc: "\<not> topLevelComma raw i" using True by (simp add: topLevelComma_def dquote_def cu_def)
    have "splitLoop raw i (take (i - st) (drop st raw)) (insideQuotes raw i) flds =
          splitLoop raw (Suc i) (take (i - st) (drop st raw) @ [raw ! i]) (insideQuotes raw (Suc i)) flds"
      using True lt uq by (subst splitLoop.simps) (auto simp: insideQuotes_Suc Let_def dquote_def cu_def)
    also have "\<dots> = splitLoop raw (Suc i) (take (Suc i - st) (drop st raw)) (insideQuotes raw (Suc i)) flds"
      by (simp only: cur)
    also have "\<dots> = (flds @ map stripField (butlast (cutAt raw st (filter (topLevelComma raw) [Suc i..<length raw]))),
                      last (cutAt raw st (filter (topLevelComma raw) [Suc i..<length raw])))"
      using st lt by (intro IH) simp_all
    finally show ?thesis using nc by (simp add: upt)
  next
    case notq: False
    then have uq: "\<not> unescapedQuoteAt raw i" by (simp add: unescapedQuoteAt_def)
    show ?thesis
    proof (cases "raw ! i = cu CHR '','' \<and> \<not> insideQuotes raw i")
      case True
      then have tc: "topLevelComma raw i" by (simp add: topLevelComma_def)
      have "splitLoop raw i (take (i - st) (drop st raw)) (insideQuotes raw i) flds =
            splitLoop raw (Suc i) (take (Suc i - Suc i) (drop (Suc i) raw)) (insideQuotes raw (Suc i))
              (flds @ [stripField (take (i - st) (drop st raw))])"
        using True notq lt uq by (subst splitLoop.simps) (auto simp: insideQuotes_Suc Let_def dquote_def cu_def)
      also have "\<dots> = ((flds @ [stripField (take (i - st) (drop st raw))]) @
                         map stripField (butlast (cutAt raw (Suc i) (filter (topLevelComma raw) [Suc i..<length raw]))),
                        last (cutAt raw (Suc i) (filter (topLevelComma raw) [Suc i..<length raw])))"
        using lt by (intro IH) simp_all
      finally show ?thesis using tc by (simp add: upt cutAt_nonempty)
    next
      case False
      then have nc: "\<not> topLevelComma raw i" by (simp add: topLevelComma_def)
      have "splitLoop raw i (take (i - st) (drop st raw)) (insideQuotes raw i) flds =
            splitLoop raw (Suc i) (take (i - st) (drop st raw) @ [raw ! i]) (insideQuotes raw (Suc i)) flds"
        using False notq lt uq by (subst splitLoop.simps) (auto simp: insideQuotes_Suc Let_def dquote_def cu_def)
      also have "\<dots> = splitLoop raw (Suc i) (take (Suc i - st) (drop st raw)) (insideQuotes raw (Suc i)) flds"
        by (simp only: cur)
      also have "\<dots> = (flds @ map stripField (butlast (cutAt raw st (filter (topLevelComma raw) [Suc i..<length raw]))),
                        last (cutAt raw st (filter (topLevelComma raw) [Suc i..<length raw])))"
        using st lt by (intro IH) simp_all
      finally show ?thesis using nc by (simp add: upt)
    qed
  qed
qed

lemma topLevelCommas_eq: "topLevelCommas raw = filter (topLevelComma raw) [0..<length raw]"
  by (simp add: topLevelCommas_def)

lemma splitLoop_segments:
  "splitLoop raw 0 [] False [] = (map stripField (butlast (segments raw)), last (segments raw))"
  using splitLoop_cutAt[of 0 0 raw "[]"]
  by (simp add: insideQuotes_0 segments_def topLevelCommas_eq)

lemma segments_nonempty: "segments raw \<noteq> []"
  by (simp add: segments_def cutAt_nonempty)

lemma splitFields_segments: "splitFields raw = map stripField (emitted (segments raw))"
proof -
  have "butlast (segments raw) @ [last (segments raw)] = segments raw"
    using segments_nonempty by simp
  then have "map stripField (butlast (segments raw)) @ [stripField (last (segments raw))]
             = map stripField (segments raw)"
    by (metis list.simps(8,9) map_append)
  then show ?thesis
    by (simp add: splitFields_def splitLoop_segments emitted_def)
qed


section \<open>The record of one row\<close>

lemma split_nonempty: "split sep s \<noteq> []"
  by (induction s) (auto split: list.splits)

lemma simpleFields_nonempty: "simpleFields rawData \<noteq> []"
  by (simp add: simpleFields_def split_nonempty)

lemma trendName_simple:
  "trendName (simpleCleanTrendsData rawData) = or_else (at_index (simpleFields rawData) 0) []"
  by (simp add: simpleCleanTrendsData_def Let_def)

lemma relatedSearches_simple:
  "relatedSearches (simpleCleanTrendsData rawData) =
     take 5 (relatedTerms (trendName (simpleCleanTrendsData rawData)) (simpleFields rawData))"
  by (simp add: simpleCleanTrendsData_def Let_def)

lemma or_else_first: "or_else (at_index (f # fs) 0) [] = f"
  by (simp add: or_else_def at_index_def)

lemma or_else_none: "or_else (at_index [] 0) [] = []"
  by (simp add: or_else_def at_index_def)

lemma take5_admitted:
  assumes "e \<in> set (take 5 (relatedTerms name flds))"
  shows "\<not> str_includes e name \<and> (\<forall>noise \<in> set noiseWords. \<not> str_includes e noise) \<and>
         \<not> str_includes e (js ''%'') \<and> \<not> str_includes e (js ''searches'') \<and> \<not> str_includes e (js ''ago'')"
proof -
  from assms have "e \<in> set (relatedTerms name flds)" by (rule in_set_takeD)
  then have "admitted name e" by (rule relatedTerms_admitted)
  then show ?thesis by (auto simp: admitted_def list_ex_iff)
qed

lemma first_field_segment:
  assumes "splitFields rawData = f # fs"
  shows "f = stripQuotes (trim (hd (segments rawData)))"
proof -
  from assms have m: "map stripField (emitted (segments rawData)) = f # fs"
    by (simp add: splitFields_segments)
  then obtain g gs where e: "emitted (segments rawData) = g # gs" by (cases "emitted (segments rawData)") auto
  with m have f: "f = stripField g" by simp
  have "hd (emitted (segments rawData)) = hd (segments rawData)"
  proof (cases "last (segments rawData) = []")
    case True
    with e have "butlast (segments rawData) = g # gs" by (simp add: emitted_def)
    then show ?thesis using True
      by (cases "segments rawData") (auto simp: emitted_def split: if_splits)
  next
    case False
    then show ?thesis by (simp add: emitted_def)
  qed
  with e f show ?thesis by (simp add: stripField_eq)
qed


text \<open>
  Claim C9. The trend name is the first field of the split row, whatever it is, and the
  empty string when the row has no field. In the quote-aware cleaner that field is the
  row's text up to the first top-level comma, trimmed, with a double quote taken from
  each end. The simple cleaner of \<open>cleaner.tsx\<close> takes its first field the same way.
\<close>

theorem trend_name_is_first_field:
  "(splitFields rawData = [] \<longrightarrow> trendName (cleanTrendsData rawData) = []) \<and>
   (\<forall>f fs. splitFields rawData = f # fs \<longrightarrow>
      trendName (cleanTrendsData rawData) = f \<and> f = stripQuotes (trim (hd (segments rawData)))) \<and>
   (\<forall>f fs. simpleFields rawData = f # fs \<longrightarrow> trendName (simpleCleanTrendsData rawData) = f)"
  by (auto simp: trendName_clean trendName_simple or_else_first or_else_none
           dest: first_field_segment)

theorem trend_name_is_first_field_witness:
  "splitFields (js '' \"ab c\" ,x'') = [js ''ab c'', js ''x''] \<and>
   trendName (cleanTrendsData (js '' \"ab c\" ,x'')) = js ''ab c'' \<and>
   splitFields [] = [] \<and> trendName (cleanTrendsData []) = [] \<and>
   simpleFields (js '' \"ab c\" ,x'') = [js ''ab c'', js ''x''] \<and>
   trendName (simpleCleanTrendsData (js '' \"ab c\" ,x'')) = js ''ab c''"
proof -
  have a: "splitFields (js '' \"ab c\" ,x'') = [js ''ab c'', js ''x'']" by code_simp
  have b: "splitFields [] = []" by code_simp
  have c: "simpleFields (js '' \"ab c\" ,x'') = [js ''ab c'', js ''x'']" by code_simp
  from trend_name_is_first_field[of "(js '' \"ab c\" ,x'')"] trend_name_is_first_field[of "[]"] a b c
  show ?thesis by simp
qed

text \<open>
  Claim C10. When the trend name is the empty string the list of related searches is
  empty: every candidate contains the empty string, so the test for the trend name
  rejects it.
\<close>

theorem related_empty_when_name_empty:
  "(trendName (cleanTrendsData rawData) = [] \<longrightarrow> relatedSearches (cleanTrendsData rawData) = []) \<and>
   (trendName (simpleCleanTrendsData rawData) = [] \<longrightarrow>
      relatedSearches (simpleCleanTrendsData rawData) = [])"
  by (simp add: relatedSearches_clean relatedSearches_simple relatedTerms_empty_name)

theorem related_empty_when_name_empty_witness:
  "trendName (cleanTrendsData (js '',plane crash'')) = [] \<and>
   relatedSearches (cleanTrendsData (js '',plane crash'')) = [] \<and>
   trendName (simpleCleanTrendsData (js '',plane crash'')) = [] \<and>
   relatedSearches (simpleCleanTrendsData (js '',plane crash'')) = [] \<and>
   relatedSearches (cleanTrendsData (js ''x,plane crash'')) = [js ''plane crash'']"
proof -
  have a: "trendName (cleanTrendsData (js '',plane crash'')) = []" by code_simp
  have b: "trendName (simpleCleanTrendsData (js '',plane crash'')) = []" by code_simp
  have c: "relatedSearches (cleanTrendsData (js ''x,plane crash'')) = [js ''plane crash'']" by code_simp
  from related_empty_when_name_empty[of "(js '',plane crash'')"] a b c show ?thesis by simp
qed

text \<open>
  Claim C4. The related searches of a record are at most five and pairwise different,
  and none of them contains the record's trend name, a noise label, a percent sign,
  \<open>searches\<close> or \<open>ago\<close>. Both cleaners keep this.
\<close>

theorem related_searches_invariant:
  "length (relatedSearches (cleanTrendsData rawData)) \<le> 5 \<and>
   distinct (relatedSearches (cleanTrendsData rawData)) \<and>
   (\<forall>e \<in> set (relatedSearches (cleanTrendsData rawData)).
      \<not> str_includes e (trendName (cleanTrendsData rawData)) \<and>
      (\<forall>noise \<in> set noiseWords. \<not> str_includes e noise) \<and>
      \<not> str_includes e (js ''%'') \<and> \<not> str_includes e (js ''searches'') \<and> \<not> str_includes e (js ''ago'')) \<and>
   length (relatedSearches (simpleCleanTrendsData rawData)) \<le> 5 \<and>
   distinct (relatedSearches (simpleCleanTrendsData rawData)) \<and>
   (\<forall>e \<in> set (relatedSearches (simpleCleanTrendsData rawData)).
      \<not> str_includes e (trendName (simpleCleanTrendsData rawData)) \<and>
      (\<forall>noise \<in> set noiseWords. \<not> str_includes e noise) \<and>
      \<not> str_includes e (js ''%'') \<and> \<not> str_includes e (js ''searches'') \<and> \<not> str_includes e (js ''ago''))"
proof -
  have A: "\<forall>e \<in> set (relatedSearches (cleanTrendsData rawData)).
      \<not> str_includes e (trendName (cleanTrendsData rawData)) \<and>
      (\<forall>noise \<in> set noiseWords. \<not> str_includes e noise) \<and>
      \<not> str_includes e (js ''%'') \<and> \<not> str_includes e (js ''searches'') \<and> \<not> str_includes e (js ''ago'')"
  proof
    fix e assume "e \<in> set (relatedSearches (cleanTrendsData rawData))"
    then have "e \<in> set (take 5 (relatedTerms (trendName (cleanTrendsData rawData)) (splitFields rawData)))"
      by (simp only: relatedSearches_clean)
    then show "\<not> str_includes e (trendName (cleanTrendsData rawData)) \<and>
      (\<forall>noise \<in> set noiseWords. \<not> str_includes e noise) \<and>
      \<not> str_includes e (js ''%'') \<and> \<not> str_includes e (js ''searches'') \<and> \<not> str_includes e (js ''ago'')"
      by (rule take5_admitted)
  qed
  have B: "\<forall>e \<in> set (relatedSearches (simpleCleanTrendsData rawData)).
      \<not> str_includes e (trendName (simpleCleanTrendsData rawData)) \<and>
      (\<forall>noise \<in> set noiseWords. \<not> str_includes e noise) \<and>
      \<not> str_includes e (js ''%'') \<and> \<not> str_includes e (js ''searches'') \<and> \<not> str_includes e (js ''ago'')"
  proof
    fix e assume "e \<in> set (relatedSearches (simpleCleanTrendsData rawData))"
    then have "e \<in> set (take 5 (relatedTerms (trendName (simpleCleanTrendsData rawData)) (simpleFields rawData)))"
      by (simp only: relatedSearches_simple)
    then show "\<not> str_includes e (trendName (simpleCleanTrendsData rawData)) \<and>
      (\<forall>noise \<in> set noiseWords. \<not> str_includes e noise) \<and>
      \<not> str_includes e (js ''%'') \<and> \<not> str_includes e (js ''searches'') \<and> \<not> str_includes e (js ''ago'')"
      by (rule take5_admitted)
  qed
  have C: "length (relatedSearches (cleanTrendsData rawData)) \<le> 5"
    by (simp add: relatedSearches_clean)
  have D: "distinct (relatedSearches (cleanTrendsData rawData))"
    by (simp add: relatedSearches_clean distinct_relatedTerms)
  have E: "length (relatedSearches (simpleCleanTrendsData rawData)) \<le> 5"
    by (simp add: relatedSearches_simple)
  have F: "distinct (relatedSearches (simpleCleanTrendsData rawData))"
    by (simp add: relatedSearches_simple distinct_relatedTerms)
  show ?thesis by (intro conjI A B C D E F)
qed

theorem related_searches_invariant_witness:
  "relatedSearches (cleanTrendsData sixTerms) = [js ''plane crash'', js ''songs'', js ''efgh'', js ''ijkl'', js ''mnop''] \<and>
   trendName (cleanTrendsData sixTerms) = js ''zq'' \<and>
   length (relatedSearches (cleanTrendsData sixTerms)) \<le> 5 \<and>
   distinct (relatedSearches (cleanTrendsData sixTerms)) \<and>
   \<not> str_includes (js ''plane crash'') (trendName (cleanTrendsData sixTerms)) \<and>
   \<not> str_includes (js ''songs'') (js ''Search term'')"
proof -
  have a: "relatedSearches (cleanTrendsData sixTerms) = [js ''plane crash'', js ''songs'', js ''efgh'', js ''ijkl'', js ''mnop'']"
    by code_simp
  have b: "trendName (cleanTrendsData sixTerms) = js ''zq''" by code_simp
  have c: "(js ''Search term'') \<in> set noiseWords" by (simp add: noiseWords_def)
  from related_searches_invariant[of sixTerms] c show ?thesis
    unfolding a b by simp
qed

text \<open>
  Claim C2. On the raw blob of Scenario A the quote-aware cleaner finds the name, the
  volume, the time and the growth percentage that the scenario gives. Its related
  searches are empty: the fourth field contains the trend name and the fifth is a noise
  label, so \<open>plane crash\<close> is not among them.
\<close>

theorem scenarioA_result:
  "cleanTrendsData scenarioA =
     \<lparr> trendName = js ''brett james'', searchVolume = js ''200K+'', timeAgo = js ''20h ago'',
       growthPercentage = js ''1,000%'', relatedSearches = [] \<rparr>"
  by code_simp

text \<open>
  The cleaner of \<open>cleaner.tsx\<close> on the same blob: its related searches are empty for the
  same reason, and the comma of the percentage is a field boundary there, so that only
  \<open>000%\<close> is left of it.
\<close>

lemma scenarioA_simple_cleaner:
  "simpleCleanTrendsData scenarioA =
     \<lparr> trendName = js ''brett james'', searchVolume = js ''200K+'', timeAgo = js ''20h ago'',
       growthPercentage = js ''000%'', relatedSearches = [] \<rparr>"
  by code_simp

section \<open>The field splitter\<close>

lemma join_Cons: "ys \<noteq> [] \<Longrightarrow> join sep (x # ys) = x @ sep @ join sep ys"
  by (cases ys) simp_all

lemma join_cutAt:
  "sorted_wrt (<) cuts \<Longrightarrow> \<forall>c \<in> set cuts. st \<le> c \<and> c < length raw \<and> raw ! c = (cu CHR '','') \<Longrightarrow>
   join (js '','') (cutAt raw st cuts) = drop st raw"
proof (induction cuts arbitrary: st)
  case Nil
  then show ?case by simp
next
  case (Cons c cs)
  then have c: "st \<le> c" "c < length raw" "raw ! c = cu CHR '',''" by simp_all
  have "\<forall>c' \<in> set cs. Suc c \<le> c' \<and> c' < length raw \<and> raw ! c' = cu CHR '',''"
    using Cons.prems by auto
  moreover have "sorted_wrt (<) cs" using Cons.prems by simp
  ultimately have IH: "join (js '','') (cutAt raw (Suc c) cs) = drop (Suc c) raw"
    by (rule Cons.IH[rotated])
  have "drop st raw = take (c - st) (drop st raw) @ drop (c - st) (drop st raw)"
    by (simp only: append_take_drop_id)
  also have "drop (c - st) (drop st raw) = drop c raw" using c by simp
  also have "drop c raw = raw ! c # drop (Suc c) raw"
    using Cons_nth_drop_Suc[of c raw] c by simp
  finally have "drop st raw = take (c - st) (drop st raw) @ (js '','') @ drop (Suc c) raw"
    using c by (simp add: js_def)
  then show ?case by (simp add: join_Cons cutAt_nonempty IH)
qed

lemma join_segments: "join (js '','') (segments raw) = raw"
proof -
  have "sorted_wrt (<) (topLevelCommas raw)"
    by (simp add: topLevelCommas_def sorted_wrt_filter)
  moreover have "\<forall>c \<in> set (topLevelCommas raw). 0 \<le> c \<and> c < length raw \<and> raw ! c = cu CHR '',''"
    by (simp add: topLevelCommas_def topLevelComma_def)
  ultimately have "join (js '','') (cutAt raw 0 (topLevelCommas raw)) = drop 0 raw"
    by (rule join_cutAt)
  then show ?thesis by (simp add: segments_def)
qed

lemma stripQuotes_pair: "stripQuotes (dquote # x @ [dquote]) = x"
  by (simp add: stripQuotes_def Let_def)

lemma splitFields_empty: "splitFields raw = [] \<Longrightarrow> raw = []"
proof -
  assume "splitFields raw = []"
  then have e: "emitted (segments raw) = []" by (simp add: splitFields_segments)
  have "segments raw = [[]]"
  proof (cases "segments raw" rule: rev_cases)
    case Nil
    then show ?thesis using segments_nonempty by simp
  next
    case (snoc ys y)
    with e show ?thesis by (simp add: emitted_def split: if_splits)
  qed
  then have "join (js '','') (segments raw) = []" by simp
  then show ?thesis by (simp add: join_segments)
qed

lemma stripQuotes_plain: "t = [] \<or> (hd t \<noteq> dquote \<and> last t \<noteq> dquote) \<Longrightarrow> stripQuotes t = t"
  by (cases t) (auto simp: stripQuotes_def Let_def)

text \<open>
  Claim C5, as stated, fails on how a field is cleaned. The splitter trims a piece and then
  takes a double quote from either end on its own: in \<^verbatim>\<open>say "hi"\<close> the closing quote of
  the quoted word goes, and the lone quote of \<^verbatim>\<open>"a\<close> goes, though neither text is
  wrapped in a pair; and the white space inside \<^verbatim>\<open>" a "\<close> stays, since the piece is
  trimmed before its quotes are taken. The specification's wording gives \<^verbatim>\<open>say "hi"\<close>,
  \<^verbatim>\<open>"a\<close> and \<^verbatim>\<open>a\<close>.
\<close>

theorem splitter_counterexample:
  "splitFields (js ''say \"hi\"'') = [js ''say \"hi''] \<and>
   spec_splitFields (js ''say \"hi\"'') = [js ''say \"hi\"''] \<and>
   splitFields (js ''say \"hi\"'') \<noteq> spec_splitFields (js ''say \"hi\"'') \<and>
   splitFields (js ''\"a'') = [js ''a''] \<and>
   spec_splitFields (js ''\"a'') = [js ''\"a''] \<and>
   splitFields (js ''\"a'') \<noteq> spec_splitFields (js ''\"a'') \<and>
   splitFields (js ''\" a \"'') = [js '' a ''] \<and>
   spec_splitFields (js ''\" a \"'') = [js ''a''] \<and>
   splitFields (js ''\" a \"'') \<noteq> spec_splitFields (js ''\" a \"'')"
  by code_simp

text \<open>
  Claim C5, amended. The fields of the quote-aware splitter are the pieces of the raw text
  between its top-level commas (the commas with an even number of unescaped double quotes
  before them), each piece trimmed and then relieved of one double quote at its front if
  one stands there and of one at its back if one stands there; the piece after the last
  top-level comma is a field when it is not empty. The pieces joined by commas are the
  raw text again. A trimmed piece wrapped in one pair of double quotes loses exactly that
  pair, and one with no double quote at either end stays as it is.
\<close>

theorem splitter_cuts_at_top_level_commas:
  "splitFields rawData = map (\<lambda>seg. stripQuotes (trim seg)) (emitted (segments rawData)) \<and>
   join (js '','') (segments rawData) = rawData \<and>
   stripQuotes ([dquote] @ x @ [dquote]) = x \<and>
   (t = [] \<or> (hd t \<noteq> dquote \<and> last t \<noteq> dquote) \<longrightarrow> stripQuotes t = t)"
  by (simp add: splitFields_segments stripField_eq[abs_def] join_segments stripQuotes_pair
        stripQuotes_plain)

theorem splitter_cuts_at_top_level_commas_witness:
  "splitFields (js '' a,\"b, c\" ,d'') = [js ''a'', js ''b, c'', js ''d''] \<and>
   hd (js ''ab'') \<noteq> dquote \<and> last (js ''ab'') \<noteq> dquote \<and> stripQuotes (js ''ab'') = js ''ab''"
proof -
  have a: "map (\<lambda>seg. stripQuotes (trim seg)) (emitted (segments (js '' a,\"b, c\" ,d''))) =
        [js ''a'', js ''b, c'', js ''d'']"
    by code_simp
  have b: "hd (js ''ab'') \<noteq> dquote \<and> last (js ''ab'') \<noteq> dquote" by code_simp
  from splitter_cuts_at_top_level_commas[of "js '' a,\"b, c\" ,d''" _ "js ''ab''"] a b
  show ?thesis by simp
qed

section \<open>The classifier\<close>

lemma str_includes_tail: "str_includes f (p @ q) \<Longrightarrow> str_includes f q"
proof -
  assume "str_includes f (p @ q)"
  then obtain a b where "f = a @ (p @ q) @ b" by (auto simp: str_includes_iff)
  then have "f = (a @ p) @ q @ b" by simp
  then show ?thesis unfolding str_includes_iff by blast
qed

lemma ago_condition:
  "(str_includes f (js ''ago'') \<or> str_includes f (js ''hours ago'') \<or> str_includes f (js ''h ago'') \<or>
    str_includes f (js ''m ago'')) = str_includes f (js ''ago'')"
  using str_includes_tail[of f "js ''hours ''" "js ''ago''"]
        str_includes_tail[of f "js ''h ''" "js ''ago''"]
        str_includes_tail[of f "js ''m ''" "js ''ago''"]
  by (auto simp: js_append[symmetric])

lemma str_includes_nonempty: "str_includes f p \<Longrightarrow> p \<noteq> [] \<Longrightarrow> f \<noteq> []"
  by (cases f) auto

lemma truthy_find:
  assumes "\<And>x. P x \<Longrightarrow> x \<noteq> []"
  shows "truthy (find P xs) = (find P xs \<noteq> None)"
proof (cases "find P xs")
  case None
  then show ?thesis by (simp add: truthy_def)
next
  case (Some x)
  then have "P x" by (auto simp: find_Some_iff)
  then have "x \<noteq> []" by (rule assms)
  with Some show ?thesis by (simp add: truthy_def)
qed

lemma timeAgo_clean: "timeAgo (cleanTrendsData rawData) = extractTime (splitFields rawData)"
  by (simp add: cleanTrendsData_def Let_def)

lemma growth_clean:
  "growthPercentage (cleanTrendsData rawData) = extractGrowth rawData (splitFields rawData)"
  by (simp add: cleanTrendsData_def Let_def)

lemma extractTime_eq:
  "extractTime flds =
     (case find (\<lambda>field. str_includes field (js ''ago'')) flds of
        None \<Rightarrow> []
      | Some field \<Rightarrow>
          (case regex_match re_time field of
             Some g \<Rightarrow> g
           | None \<Rightarrow> trim (case field of [] \<Rightarrow> [] | c # cs \<Rightarrow> if c = middot then cs else field)))"
proof -
  have t: "truthy (find (\<lambda>field. str_includes field (js ''ago'')) flds) =
           (find (\<lambda>field. str_includes field (js ''ago'')) flds \<noteq> None)"
    by (rule truthy_find) (auto dest: str_includes_nonempty simp: js_def)
  show ?thesis
    unfolding extractTime_def ago_condition Let_def t
    by (cases "find (\<lambda>field. str_includes field (js ''ago'')) flds") (auto simp: replace_lead_dot split: option.splits)
qed

lemma extractGrowth_eq:
  "extractGrowth rawData flds =
     (case regex_match re_percent rawData of
        Some g \<Rightarrow> g
      | None \<Rightarrow>
          (case find (\<lambda>field. str_includes field (js ''%'') \<and> (\<exists>c \<in> set field. isDigit c)) flds of
             None \<Rightarrow> []
           | Some field \<Rightarrow>
               (case regex_match re_arrow field of
                  Some g \<Rightarrow> g
                | None \<Rightarrow>
                    (case regex_match re_percent field of
                       Some g \<Rightarrow> g
                     | None \<Rightarrow>
                         (case regex_match re_loose field of
                            Some g \<Rightarrow> g
                          | None \<Rightarrow> [])))))"
proof -
  let ?P = "\<lambda>field. str_includes field (js ''%'') \<and> (\<exists>c \<in> set field. isDigit c)"
  have t: "truthy (find ?P flds) = (find ?P flds \<noteq> None)"
    by (rule truthy_find) auto
  show ?thesis
    unfolding extractGrowth_def test_digit Let_def t
    by (cases "find ?P flds") (auto split: option.splits)
qed

lemma ago_condition_simple:
  "(str_includes f (js ''ago'') \<or> str_includes f (js ''hours ago'') \<or> str_includes f (js ''h ago''))
     = str_includes f (js ''ago'')"
  using str_includes_tail[of f "js ''hours ''" "js ''ago''"]
        str_includes_tail[of f "js ''h ''" "js ''ago''"]
  by (auto simp: js_append[symmetric])

lemma timeAgo_simple: "timeAgo (simpleCleanTrendsData rawData) = simpleTime (simpleFields rawData)"
  by (simp add: simpleCleanTrendsData_def Let_def)

lemma simpleTime_eq:
  "simpleTime flds =
     (case find (\<lambda>field. str_includes field (js ''ago'')) flds of
        None \<Rightarrow> []
      | Some field \<Rightarrow>
          (case regex_match re_time_hours field of
             Some g \<Rightarrow> g
           | None \<Rightarrow> trim (case field of [] \<Rightarrow> [] | c # cs \<Rightarrow> if c = middot then cs else field)))"
proof -
  have t: "truthy (find (\<lambda>field. str_includes field (js ''ago'')) flds) =
           (find (\<lambda>field. str_includes field (js ''ago'')) flds \<noteq> None)"
    by (rule truthy_find) (auto dest: str_includes_nonempty simp: js_def)
  show ?thesis
    unfolding simpleTime_def ago_condition_simple Let_def t
    by (cases "find (\<lambda>field. str_includes field (js ''ago'')) flds")
       (auto simp: replace_lead_dot split: option.splits)
qed

text \<open>
  Claim C8, as stated, fails on the cleaner of \<open>cleaner.tsx\<close>: its pattern
  \<^verbatim>\<open>(\d+\s*(?:hours?|h)\s*ago)\<close> knows hours only, as its comment says. In the field
  \<open>at 50m ago\<close> the claim's pattern captures \<open>50m ago\<close>, while that cleaner finds no
  match and stores the whole field.
\<close>

theorem elapsed_time_counterexample:
  "timeAgo (simpleCleanTrendsData (js ''x,at 50m ago'')) = js ''at 50m ago'' \<and>
   spec_timeAgo (simpleFields (js ''x,at 50m ago'')) = js ''50m ago'' \<and>
   timeAgo (simpleCleanTrendsData (js ''x,at 50m ago'')) \<noteq>
     spec_timeAgo (simpleFields (js ''x,at 50m ago''))"
  by code_simp

text \<open>
  Claim C8, amended. In both cleaners the elapsed time is read from the first field that
  contains \<open>ago\<close> (the longer tests of the source all imply that one), and it is the empty
  string when there is no such field. The quote-aware cleaner does what the specification
  says: when \<^verbatim>\<open>(\d+\s*(?:hours?|h|minutes?|m)\s*ago)\<close> matches in that field, ignoring
  case, the time is the captured group; otherwise it is the field without one leading
  middle dot, trimmed. The cleaner of \<open>cleaner.tsx\<close> does the same with the pattern
  \<^verbatim>\<open>(\d+\s*(?:hours?|h)\s*ago)\<close>, which has no minutes.
\<close>

theorem elapsed_time_extraction:
  "timeAgo (cleanTrendsData rawData) = spec_timeAgo (splitFields rawData) \<and>
   timeAgo (cleanTrendsData rawData) =
     (case find (\<lambda>field. str_includes field (js ''ago'')) (splitFields rawData) of
        None \<Rightarrow> []
      | Some field \<Rightarrow>
          (case regex_match re_time field of
             Some g \<Rightarrow> g
           | None \<Rightarrow> trim (case field of [] \<Rightarrow> [] | c # cs \<Rightarrow> if c = middot then cs else field))) \<and>
   timeAgo (simpleCleanTrendsData rawData) =
     (case find (\<lambda>field. str_includes field (js ''ago'')) (simpleFields rawData) of
        None \<Rightarrow> []
      | Some field \<Rightarrow>
          (case regex_match re_time_hours field of
             Some g \<Rightarrow> g
           | None \<Rightarrow> trim (case field of [] \<Rightarrow> [] | c # cs \<Rightarrow> if c = middot then cs else field)))"
  by (simp only: timeAgo_clean extractTime_eq timeAgo_simple simpleTime_eq spec_timeAgo_def simp_thms)

theorem elapsed_time_extraction_witness:
  "timeAgo (cleanTrendsData (js ''x,Trending 2 HOURS  ago now'')) = js ''2 HOURS  ago'' \<and>
   timeAgo (cleanTrendsData (js ''x,at 50m ago'')) = js ''50m ago'' \<and>
   timeAgo (cleanTrendsData (js ''x,'' @ [middot] @ js ''long ago '')) = js ''long ago'' \<and>
   timeAgo (cleanTrendsData (js ''x,y'')) = [] \<and>
   timeAgo (simpleCleanTrendsData (js ''x,Trending 2 HOURS  ago now'')) = js ''2 HOURS  ago'' \<and>
   timeAgo (simpleCleanTrendsData (js ''x,at 50m ago'')) = js ''at 50m ago'' \<and>
   timeAgo (simpleCleanTrendsData (js ''x,y'')) = []"
proof -
  note t = elapsed_time_extraction
  show ?thesis
    by (simp only: t[THEN conjunct2, THEN conjunct1] t[THEN conjunct2, THEN conjunct2]) code_simp
qed

text \<open>
  Claim C3. The specification takes the growth percentage from the whole raw text first,
  with \<^verbatim>\<open>(\d{1,3}(?:,\d{3})*%)\<close>, so that a percentage with a comma is found although
  the comma splits it over two fields. The cleaner of \<open>cleaner.tsx\<close> has no such step: it
  looks at the fields alone, with the one pattern \<^verbatim>\<open>(\d+,?\d*%)\<close>. On Scenario A, where
  the pattern on the whole text captures \<open>1,000%\<close> and the quote-aware cleaner returns
  it, that cleaner returns \<open>000%\<close>, against its own comment that names \<open>1,000%\<close> as
  what it looks for.
\<close>

theorem simple_growth_scenarioA:
  "growthPercentage (simpleCleanTrendsData scenarioA) = js ''000%'' \<and>
   regex_match re_percent scenarioA = Some (js ''1,000%'') \<and>
   growthPercentage (cleanTrendsData scenarioA) = js ''1,000%''"
  by code_simp

text \<open>
  The quote-aware cleaner follows the specification: the growth percentage is the capture
  of \<^verbatim>\<open>(\d{1,3}(?:,\d{3})*%)\<close> in the whole raw text when the pattern matches there. Only
  otherwise the first field with a percent sign and a digit is tried, with the prefixed
  pattern, the grouped pattern and the loose pattern in this order; the first capture is
  kept, and the result is the empty string when nothing matches or no field qualifies.
\<close>

theorem growth_percentage_extraction:
  "growthPercentage (cleanTrendsData rawData) =
     (case regex_match re_percent rawData of
        Some g \<Rightarrow> g
      | None \<Rightarrow>
          (case find (\<lambda>field. str_includes field (js ''%'') \<and> (\<exists>c \<in> set field. isDigit c))
                  (splitFields rawData) of
             None \<Rightarrow> []
           | Some field \<Rightarrow>
               (case regex_match re_arrow field of
                  Some g \<Rightarrow> g
                | None \<Rightarrow>
                    (case regex_match re_percent field of
                       Some g \<Rightarrow> g
                     | None \<Rightarrow>
                         (case regex_match re_loose field of
                            Some g \<Rightarrow> g
                          | None \<Rightarrow> [])))))"
  by (simp only: growth_clean extractGrowth_eq)

theorem growth_percentage_extraction_witness:
  "growthPercentage (cleanTrendsData scenarioA) = js ''1,000%'' \<and>
   growthPercentage (cleanTrendsData (js ''a,+12,345,678% up'')) = js ''12,345,678%'' \<and>
   growthPercentage (cleanTrendsData (js ''a,1234%'')) = js ''234%'' \<and>
   growthPercentage (cleanTrendsData (js ''a,12 %'')) = [] \<and>
   growthPercentage (cleanTrendsData (js ''a,b'')) = []"
  by (simp only: growth_percentage_extraction) code_simp

subsection \<open>Further properties of the classifier\<close>

lemma needs_percent: "needs (cu CHR ''%'') re_percent"
  by (simp add: re_percent_def)

lemma set_trim: "set (trim s) \<subseteq> set s"
proof -
  have "set (dropWhile isSpace (rev (dropWhile isSpace s))) \<subseteq> set (rev (dropWhile isSpace s))"
    by (rule set_dropWhileD[THEN subsetI])
  also have "\<dots> \<subseteq> set s" using set_dropWhileD[of _ isSpace s] by auto
  finally show ?thesis by (simp add: trim_def)
qed

lemma set_stripQuotes: "set (stripQuotes t) \<subseteq> set t"
proof -
  have b: "\<And>xs :: jsstring. set (butlast xs) \<subseteq> set xs" by (auto dest: in_set_butlastD)
  show ?thesis
    unfolding stripQuotes_def Let_def using b
    by (cases t) (auto dest: in_set_butlastD split: if_splits)
qed

lemma set_cutAt: "seg \<in> set (cutAt raw st cuts) \<Longrightarrow> set seg \<subseteq> set raw"
proof (induction cuts arbitrary: st)
  case Nil
  then show ?case using set_drop_subset[of st raw] by simp
next
  case (Cons c cs)
  have "set (take (c - st) (drop st raw)) \<subseteq> set raw"
    using set_take_subset[of "c - st" "drop st raw"] set_drop_subset[of st raw] by blast
  with Cons show ?case by auto
qed

lemma set_emitted: "set (emitted segs) \<subseteq> set segs"
  by (auto simp: emitted_def dest: in_set_butlastD)

lemma set_field: "f \<in> set (splitFields raw) \<Longrightarrow> set f \<subseteq> set raw"
proof -
  assume "f \<in> set (splitFields raw)"
  then obtain seg where seg: "seg \<in> set (emitted (segments raw))" and f: "f = stripField seg"
    by (auto simp: splitFields_segments)
  from seg have "seg \<in> set (segments raw)" using set_emitted by blast
  then have "set seg \<subseteq> set raw" unfolding segments_def by (rule set_cutAt)
  moreover have "set f \<subseteq> set seg"
    using set_stripQuotes[of "trim seg"] set_trim[of seg] by (auto simp: f stripField_eq)
  ultimately show ?thesis by blast
qed

lemma str_includes_set: "str_includes f p \<Longrightarrow> set p \<subseteq> set f"
  by (auto simp: str_includes_iff)

text \<open>
  Scenario B of the specification, for every row: a raw text without a percent sign gets
  the empty growth percentage. The pattern on the whole text cannot match, and no field
  holds a percent sign, since every field is cut out of the raw text.
\<close>

theorem no_percent_no_growth:
  "cu CHR ''%'' \<notin> set rawData \<Longrightarrow> growthPercentage (cleanTrendsData rawData) = []"
proof -
  assume n: "cu CHR ''%'' \<notin> set rawData"
  then have w: "regex_match re_percent rawData = None"
    using regex_match_needs[OF needs_percent] by blast
  have "\<And>f. f \<in> set (splitFields rawData) \<Longrightarrow> \<not> str_includes f (js ''%'')"
  proof
    fix f assume f: "f \<in> set (splitFields rawData)" and i: "str_includes f (js ''%'')"
    from i have "cu CHR ''%'' \<in> set f" using str_includes_set[OF i] by (simp add: js_def)
    with set_field[OF f] n show False by blast
  qed
  then have "find (\<lambda>field. str_includes field (js ''%'') \<and> (\<exists>c \<in> set field. isDigit c))
               (splitFields rawData) = None"
    by (auto simp: find_None_iff)
  with w show ?thesis by (simp add: growth_clean extractGrowth_eq)
qed

theorem no_percent_no_growth_witness:
  "cu CHR ''%'' \<notin> set (js ''a,200K+ searches,12,345'') \<and>
   growthPercentage (cleanTrendsData (js ''a,200K+ searches,12,345'')) = []"
proof -
  have n: "cu CHR ''%'' \<notin> set (js ''a,200K+ searches,12,345'')" by code_simp
  from no_percent_no_growth[OF n] n show ?thesis by simp
qed

lemma volume_clean: "searchVolume (cleanTrendsData rawData) = extractVolume (splitFields rawData)"
  by (simp add: cleanTrendsData_def Let_def)

text \<open>
  The search volume is read from the first field that contains \<open>searches\<close> and also
  \<open>K+\<close>, \<open>M+\<close> or a digit: it is the group that \<^verbatim>\<open>(\d+[KM]?\+?)\s*searches?\<close>
  captures there, ignoring case, and the empty string when the pattern does not match in
  that field or no field qualifies.
\<close>

theorem search_volume_extraction:
  "searchVolume (cleanTrendsData rawData) =
     (case find (\<lambda>field. str_includes field (js ''searches'') \<and>
                   (str_includes field (js ''K+'') \<or> str_includes field (js ''M+'') \<or>
                    (\<exists>c \<in> set field. isDigit c))) (splitFields rawData) of
        None \<Rightarrow> []
      | Some field \<Rightarrow> (case regex_match re_volume field of Some g \<Rightarrow> g | None \<Rightarrow> []))"
proof -
  let ?P = "\<lambda>field. str_includes field (js ''searches'') \<and>
                   (str_includes field (js ''K+'') \<or> str_includes field (js ''M+'') \<or>
                    (\<exists>c \<in> set field. isDigit c))"
  have t: "truthy (find ?P (splitFields rawData)) = (find ?P (splitFields rawData) \<noteq> None)"
    by (rule truthy_find) (auto dest: str_includes_nonempty simp: js_def)
  show ?thesis
    unfolding volume_clean extractVolume_def test_digits Let_def t
    by (cases "find ?P (splitFields rawData)") (auto split: option.splits)
qed

theorem search_volume_extraction_witness:
  "searchVolume (cleanTrendsData scenarioA) = js ''200K+'' \<and>
   searchVolume (cleanTrendsData (js ''a,over 2m searches'')) = js ''2m'' \<and>
   searchVolume (cleanTrendsData (js ''a,5 Searches'')) = [] \<and>
   searchVolume (cleanTrendsData (js ''a,researches K+'')) = []"
  by (simp only: search_volume_extraction) code_simp

subsection \<open>The scan of the fields never finds a percentage\<close>

lemma digitPercent_iff:
  "digitPercent s \<longleftrightarrow> (\<exists>a d b. s = a @ d # cu CHR ''%'' # b \<and> isDigit d)"
proof (induction s rule: digitPercent.induct)
  case (1 d p rest)
  show ?case
  proof
    assume "digitPercent (d # p # rest)"
    then consider "isDigit d \<and> p = cu CHR ''%''" | "digitPercent (p # rest)" by auto
    then show "\<exists>a d' b. d # p # rest = a @ d' # cu CHR ''%'' # b \<and> isDigit d'"
    proof cases
      case 1
      then have "d # p # rest = [] @ d # cu CHR ''%'' # rest \<and> isDigit d" by simp
      then show ?thesis by blast
    next
      case 2
      with "1.IH" obtain a d' b where "p # rest = a @ d' # cu CHR ''%'' # b" "isDigit d'" by blast
      then have "d # p # rest = (d # a) @ d' # cu CHR ''%'' # b \<and> isDigit d'" by simp
      then show ?thesis by blast
    qed
  next
    assume "\<exists>a d' b. d # p # rest = a @ d' # cu CHR ''%'' # b \<and> isDigit d'"
    then obtain a d' b where e: "d # p # rest = a @ d' # cu CHR ''%'' # b" and dg: "isDigit d'" by blast
    show "digitPercent (d # p # rest)"
    proof (cases a)
      case Nil
      with e dg show ?thesis by simp
    next
      case (Cons x a')
      with e have "p # rest = a' @ d' # cu CHR ''%'' # b" by simp
      with dg "1.IH" have "digitPercent (p # rest)" by blast
      then show ?thesis by simp
    qed
  qed
qed (auto simp: Cons_eq_append_conv)

lemma digitPercent_sublist: "digitPercent f \<Longrightarrow> sublist f s \<Longrightarrow> digitPercent s"
proof -
  assume "digitPercent f" "sublist f s"
  then obtain a d b ps ss where "f = a @ d # cu CHR ''%'' # b" "isDigit d" "s = ps @ f @ ss"
    by (auto simp: digitPercent_iff sublist_def)
  then have "s = (ps @ a) @ d # cu CHR ''%'' # (b @ ss) \<and> isDigit d" by simp
  then show ?thesis unfolding digitPercent_iff by blast
qed

lemma ate_digit_trans: "ate_digit a b \<Longrightarrow> ate_digit b c \<Longrightarrow> ate_digit a c"
proof -
  assume "ate_digit a b" "ate_digit b c"
  then obtain u d u' d' where "snd (snd a) = u @ d # snd (snd b)"
      "snd (snd b) = u' @ d' # snd (snd c)" "isDigit d'"
    by (auto simp: ate_digit_def)
  then have "snd (snd a) = (u @ d # u') @ d' # snd (snd c) \<and> isDigit d'" by simp
  then show ?thesis unfolding ate_digit_def by blast
qed

lemma ate_digit_after: 
  "m \<in> set (matches r st) \<Longrightarrow> ate_digit m st' \<Longrightarrow> ate_digit st st'"
proof -
  assume m: "m \<in> set (matches r st)" and "ate_digit m st'"
  then obtain u d where "snd (snd m) = u @ d # snd (snd st')" "isDigit d"
    by (auto simp: ate_digit_def)
  moreover obtain v where "snd (snd st) = v @ snd (snd m)" using matches_suffix[OF m] by blast
  ultimately have "snd (snd st) = (v @ u) @ d # snd (snd st') \<and> isDigit d" by simp
  then show ?thesis unfolding ate_digit_def by blast
qed

lemma ate_digit_rest: "ate_digit st m \<Longrightarrow> snd (snd st') = snd (snd m) \<Longrightarrow> ate_digit st st'"
  by (simp add: ate_digit_def)

lemma ate_digit_rest_left: "ate_digit m st' \<Longrightarrow> snd (snd st) = snd (snd m) \<Longrightarrow> ate_digit st st'"
  by (simp add: ate_digit_def)

lemma matches_digits:
  "(endsDigit r \<longrightarrow> (\<forall>st' \<in> set (matches r st). ate_digit st st')) \<and>
   (emptyOrEndsDigit r \<longrightarrow>
      (\<forall>st' \<in> set (matches r st). snd (snd st') = snd (snd st) \<or> ate_digit st st'))"
proof (induction r st rule: matches.induct)
  case (4 P cap i s)
  show ?case by (cases s) (auto simp: ate_digit_def)
next
  case (7 r1 r2 st)
  have a: "ate_digit st st'"
    if "endsDigit r2 \<or> (endsDigit r1 \<and> emptyOrEndsDigit r2)" "st' \<in> set (matches (Seq r1 r2) st)"
    for st'
  proof -
    from that(2) obtain m where m: "m \<in> set (matches r1 st)" and s: "st' \<in> set (matches r2 m)"
      by auto
    from that(1) show ?thesis
    proof
      assume "endsDigit r2"
      with "7.IH"(2)[OF m] s have "ate_digit m st'" by blast
      with m show ?thesis by (rule ate_digit_after)
    next
      assume e: "endsDigit r1 \<and> emptyOrEndsDigit r2"
      with "7.IH"(1) m have x: "ate_digit st m" by blast
      from e "7.IH"(2)[OF m] s have "snd (snd st') = snd (snd m) \<or> ate_digit m st'" by blast
      then show ?thesis
      proof
        assume "snd (snd st') = snd (snd m)"
        with x show ?thesis by (simp add: ate_digit_def)
      next
        assume "ate_digit m st'"
        with x show ?thesis by (rule ate_digit_trans)
      qed
    qed
  qed
  have b: "snd (snd st') = snd (snd st) \<or> ate_digit st st'"
    if "emptyOrEndsDigit r1 \<and> emptyOrEndsDigit r2" "st' \<in> set (matches (Seq r1 r2) st)" for st'
  proof -
    from that(2) obtain m where m: "m \<in> set (matches r1 st)" and s: "st' \<in> set (matches r2 m)"
      by auto
    from that(1) "7.IH"(1) m have x: "snd (snd m) = snd (snd st) \<or> ate_digit st m" by blast
    from that(1) "7.IH"(2)[OF m] s have y: "snd (snd st') = snd (snd m) \<or> ate_digit m st'" by blast
    from x show ?thesis
    proof
      assume x1: "snd (snd m) = snd (snd st)"
      from y show ?thesis
      proof
        assume "snd (snd st') = snd (snd m)"
        with x1 show ?thesis by simp
      next
        assume "ate_digit m st'"
        then have "ate_digit st st'" using x1 by (simp add: ate_digit_def)
        then show ?thesis by simp
      qed
    next
      assume x2: "ate_digit st m"
      from y show ?thesis
      proof
        assume "snd (snd st') = snd (snd m)"
        with x2 have "ate_digit st st'" by (simp add: ate_digit_def)
        then show ?thesis by simp
      next
        assume "ate_digit m st'"
        with x2 have "ate_digit st st'" by (rule ate_digit_trans)
        then show ?thesis by simp
      qed
    qed
  qed
  show ?case
  proof (intro conjI impI ballI)
    fix st' assume "endsDigit (Seq r1 r2)" and s: "st' \<in> set (matches (Seq r1 r2) st)"
    then have "endsDigit r2 \<or> (endsDigit r1 \<and> emptyOrEndsDigit r2)" by simp
    then show "ate_digit st st'" using s by (rule a)
  next
    fix st' assume e: "emptyOrEndsDigit (Seq r1 r2)" and s: "st' \<in> set (matches (Seq r1 r2) st)"
    from e consider "endsDigit r2 \<or> (endsDigit r1 \<and> emptyOrEndsDigit r2)"
      | "emptyOrEndsDigit r1 \<and> emptyOrEndsDigit r2" by auto
    then show "snd (snd st') = snd (snd st) \<or> ate_digit st st'"
    proof cases
      case 1
      then have "ate_digit st st'" using s by (rule a)
      then show ?thesis by simp
    next
      case 2
      then show ?thesis using s by (rule b)
    qed
  qed
next
  case (9 r cap i s)
  have c: "snd (snd st') = s \<or> ate_digit (cap, i, s) st'"
    if e: "emptyOrEndsDigit r" and st': "st' \<in> set (matches (Star r) (cap, i, s))" for st'
  proof -
    from st' consider
        (zero) "st' = (cap, i, s)"
      | (more) m where "m \<in> set (matches r (cap, i, s))" "length (snd (snd m)) < length s"
          "st' \<in> set (matches (Star r) m)"
      by (subst (asm) matches_Star) auto
    then show ?thesis
    proof cases
      case zero
      then show ?thesis by simp
    next
      case more
      from e "9.IH"(1) more(1) have x: "snd (snd m) = s \<or> ate_digit (cap, i, s) m" by auto
      from e "9.IH"(2)[of m] more have y: "snd (snd st') = snd (snd m) \<or> ate_digit m st'" by auto
      from x show ?thesis
      proof
        assume x1: "snd (snd m) = s"
        from y show ?thesis
        proof
          assume "snd (snd st') = snd (snd m)"
          with x1 show ?thesis by simp
        next
          assume "ate_digit m st'"
          then have "ate_digit (cap, i, s) st'" using x1 by (simp add: ate_digit_def)
          then show ?thesis by simp
        qed
      next
        assume x2: "ate_digit (cap, i, s) m"
        from y show ?thesis
        proof
          assume "snd (snd st') = snd (snd m)"
          with x2 have "ate_digit (cap, i, s) st'" by (simp add: ate_digit_def)
          then show ?thesis by simp
        next
          assume "ate_digit m st'"
          with x2 have "ate_digit (cap, i, s) st'" by (rule ate_digit_trans)
          then show ?thesis by simp
        qed
      qed
    qed
  qed
  show ?case
  proof (intro conjI impI ballI)
    fix st' assume "endsDigit (Star r)"
    then show "ate_digit (cap, i, s) st'" by simp
  next
    fix st' assume "emptyOrEndsDigit (Star r)" and s: "st' \<in> set (matches (Star r) (cap, i, s))"
    then have "emptyOrEndsDigit r" by simp
    then have "snd (snd st') = s \<or> ate_digit (cap, i, s) st'" using s by (rule c)
    then show "snd (snd st') = snd (snd (cap, i, s)) \<or> ate_digit (cap, i, s) st'" by simp
  qed
next
  case (10 r cap i s)
  then show ?case by (auto simp: ate_digit_def)
qed (auto simp: ate_digit_def)


lemma digit_then_percent:
  assumes "endsDigit D" "emptyOrEndsDigit S"
    and "st' \<in> set (matches (Seq D (Seq S (Chr (cu CHR ''%'')))) st)"
  shows "digitPercent (snd (snd st))"
proof -
  from assms(3) obtain m1 m2 where m1: "m1 \<in> set (matches D st)"
      and m2: "m2 \<in> set (matches S m1)" and p: "st' \<in> set (matches (Chr (cu CHR ''%'')) m2)"
    by auto
  from p obtain b where b: "snd (snd m2) = cu CHR ''%'' # b"
    by (cases m2) (auto split: list.splits if_splits)
  from assms(1) m1 have x: "ate_digit st m1" using matches_digits[of D st] by blast
  from assms(2) m2 have "snd (snd m2) = snd (snd m1) \<or> ate_digit m1 m2"
    using matches_digits[of S m1] by blast
  then have "ate_digit st m2"
  proof
    assume "snd (snd m2) = snd (snd m1)"
    with x show ?thesis by (simp add: ate_digit_def)
  next
    assume "ate_digit m1 m2"
    with x show ?thesis by (rule ate_digit_trans)
  qed
  then obtain u d where "snd (snd st) = u @ d # cu CHR ''%'' # b" "isDigit d"
    using b by (auto simp: ate_digit_def)
  then show ?thesis unfolding digitPercent_iff by blast
qed

lemma matches_GroupD: "st' \<in> set (matches (Group r) st) \<Longrightarrow> \<exists>m. m \<in> set (matches r st)"
  by (cases st) auto

lemma percent_sound: "st' \<in> set (matches re_percent st) \<Longrightarrow> digitPercent (snd (snd st))"
proof -
  assume a: "st' \<in> set (matches re_percent st)"
  have D: "endsDigit (Rep1to3 digit)" by (simp add: Rep1to3_def Opt_def digit_def)
  have S: "emptyOrEndsDigit (Star (Seq (Chr (cu CHR '','')) (Rep3 digit)))"
    by (simp add: Rep3_def digit_def)
  from a[unfolded re_percent_def] obtain m where
    "m \<in> set (matches (Seq (Rep1to3 digit)
        (Seq (Star (Seq (Chr (cu CHR '','')) (Rep3 digit))) (Chr (cu CHR ''%'')))) st)"
    using matches_GroupD by blast
  with D S show ?thesis by (rule digit_then_percent)
qed

lemma loose_sound: "st' \<in> set (matches re_loose st) \<Longrightarrow> digitPercent (snd (snd st))"
proof -
  assume a: "st' \<in> set (matches re_loose st)"
  have D: "endsDigit (Plus digit)" by (simp add: Plus_def digit_def)
  have S: "emptyOrEndsDigit (Star (Seq (Chr (cu CHR '','')) (Plus digit)))"
    by (simp add: Plus_def digit_def)
  from a[unfolded re_loose_def] obtain m where
    "m \<in> set (matches (Seq (Plus digit)
        (Seq (Star (Seq (Chr (cu CHR '','')) (Plus digit))) (Chr (cu CHR ''%'')))) st)"
    using matches_GroupD by blast
  with D S show ?thesis by (rule digit_then_percent)
qed

lemma arrow_sound: "st' \<in> set (matches re_arrow st) \<Longrightarrow> digitPercent (snd (snd st))"
proof -
  assume "st' \<in> set (matches re_arrow st)"
  then obtain m where m: "m \<in> set (matches (Str (js ''arrow_upward'')) st)"
      and s: "st' \<in> set (matches re_percent m)"
    by (auto simp: re_arrow_def)
  from s have "digitPercent (snd (snd m))" by (rule percent_sound)
  moreover obtain u where "snd (snd st) = u @ snd (snd m)" using matches_suffix[OF m] by blast
  then have "sublist (snd (snd m)) (snd (snd st))" by simp
  ultimately show ?thesis by (rule digitPercent_sublist)
qed

lemma exec_from_sound:
  assumes "\<forall>st st'. st' \<in> set (matches r st) \<longrightarrow> digitPercent (snd (snd st))"
  shows "exec_from r i s = Some m \<Longrightarrow> digitPercent s"
proof (induction s arbitrary: i)
  case Nil
  then obtain st' where "st' \<in> set (matches r (None, i, []))"
    by (cases "matches r (None, i, [])") auto
  then have "digitPercent []" using assms by fastforce
  then show ?case by simp
next
  case (Cons c cs)
  show ?case
  proof (cases "matches r (None, i, c # cs)")
    case Nil
    with Cons.prems have "exec_from r (Suc i) cs = Some m" by simp
    then have "digitPercent cs" by (rule Cons.IH)
    moreover have "sublist cs (c # cs)" by (simp add: sublist_Cons_right)
    ultimately show ?thesis by (rule digitPercent_sublist)
  next
    case (Cons st' ms)
    then have "st' \<in> set (matches r (None, i, c # cs))" by simp
    then show ?thesis using assms by fastforce
  qed
qed

lemma regex_match_sound:
  assumes "\<forall>st st'. st' \<in> set (matches r st) \<longrightarrow> digitPercent (snd (snd st))"
    and "\<not> digitPercent s"
  shows "regex_match r s = None"
proof (cases "exec_from r 0 s")
  case None
  then show ?thesis by (simp add: regex_match_def)
next
  case (Some m)
  then have "digitPercent s" using exec_from_sound[OF assms(1)] by blast
  with assms(2) show ?thesis by simp
qed

lemma matches_SeqI:
  "m \<in> set (matches r1 st) \<Longrightarrow> st' \<in> set (matches r2 m) \<Longrightarrow> st' \<in> set (matches (Seq r1 r2) st)"
  by auto

lemma in_set_nonempty: "x \<in> set xs \<Longrightarrow> xs \<noteq> []"
  by auto

lemma percent_matches_here:
  assumes "isDigit d"
  shows "matches re_percent (cap, i, d # cu CHR ''%'' # b) \<noteq> []"
proof -
  have np: "\<not> isDigit (cu CHR ''%'')" by (simp add: isDigit_def cu_def)
  have nc: "cu CHR ''%'' \<noteq> cu CHR '',''" by (simp add: cu_def)
  let ?m = "(cap, Suc i, cu CHR ''%'' # b)"
  have 1: "?m \<in> set (matches (Rep1to3 digit) (cap, i, d # cu CHR ''%'' # b))"
    using assms np by (simp add: Rep1to3_def Opt_def digit_def)
  have 2: "?m \<in> set (matches (Star (Seq (Chr (cu CHR '','')) (Rep3 digit))) ?m)"
    by (subst matches_Star) simp
  have 3: "(cap, Suc (Suc i), b) \<in> set (matches (Chr (cu CHR ''%'')) ?m)" by simp
  from 2 3 have "(cap, Suc (Suc i), b) \<in>
      set (matches (Seq (Star (Seq (Chr (cu CHR '','')) (Rep3 digit))) (Chr (cu CHR ''%''))) ?m)"
    by (rule matches_SeqI)
  with 1 have "(cap, Suc (Suc i), b) \<in>
      set (matches (Seq (Rep1to3 digit)
             (Seq (Star (Seq (Chr (cu CHR '','')) (Rep3 digit))) (Chr (cu CHR ''%''))))
           (cap, i, d # cu CHR ''%'' # b))"
    by (rule matches_SeqI)
  then have "matches (Seq (Rep1to3 digit)
             (Seq (Star (Seq (Chr (cu CHR '','')) (Rep3 digit))) (Chr (cu CHR ''%''))))
           (cap, i, d # cu CHR ''%'' # b) \<noteq> []"
    by (rule in_set_nonempty)
  then show ?thesis
    unfolding re_percent_def by (simp only: matches.simps(10) map_is_Nil_conv simp_thms)
qed

lemma percent_complete: "digitPercent s \<Longrightarrow> exec_from re_percent i s \<noteq> None"
proof (induction s arbitrary: i rule: digitPercent.induct)
  case (1 d p rest)
  show ?case
  proof (cases "isDigit d \<and> p = cu CHR ''%''")
    case True
    then have "matches re_percent (None, i, d # p # rest) \<noteq> []"
      using percent_matches_here[of d None i rest] by simp
    then show ?thesis by (cases "matches re_percent (None, i, d # p # rest)") simp_all
  next
    case False
    with "1.prems" have "digitPercent (p # rest)" by simp
    with False have "exec_from re_percent (Suc i) (p # rest) \<noteq> None" using "1.IH" by blast
    then show ?thesis by (cases "matches re_percent (None, i, d # p # rest)") simp_all
  qed
qed simp_all

lemma regex_match_percent_None: "regex_match re_percent s = None \<Longrightarrow> \<not> digitPercent s"
  using percent_complete[of s 0] by (auto simp: regex_match_def split: option.splits)

lemma sublist_trim: "sublist (trim s) s"
proof -
  have "sublist (dropWhile isSpace (rev (dropWhile isSpace s))) (rev (dropWhile isSpace s))"
    by (rule sublist_dropWhile)
  then have "sublist (trim s) (dropWhile isSpace s)"
    by (simp add: trim_def sublist_rev_left)
  moreover have "sublist (dropWhile isSpace s) s" by (rule sublist_dropWhile)
  ultimately show ?thesis by (rule sublist_order.order.trans)
qed

lemma sublist_stripQuotes: "sublist (stripQuotes t) t"
proof -
  let ?t1 = "case t of [] \<Rightarrow> [] | c # cs \<Rightarrow> if c = dquote then cs else t"
  have a: "sublist ?t1 t" by (cases t) (auto intro: sublist_order.order.trans[OF sublist_tl] simp: sublist_Cons_right)
  have "sublist (stripQuotes t) ?t1"
    by (simp add: stripQuotes_def Let_def)
  then show ?thesis using a by (rule sublist_order.order.trans)
qed

lemma sublist_cutAt: "seg \<in> set (cutAt raw st cuts) \<Longrightarrow> sublist seg raw"
proof (induction cuts arbitrary: st)
  case Nil
  then show ?case by simp
next
  case (Cons c cs)
  have "sublist (take (c - st) (drop st raw)) raw"
    using sublist_order.order.trans[OF sublist_take sublist_drop] .
  with Cons show ?case by auto
qed

lemma sublist_field: "f \<in> set (splitFields raw) \<Longrightarrow> sublist f raw"
proof -
  assume "f \<in> set (splitFields raw)"
  then obtain seg where seg: "seg \<in> set (emitted (segments raw))" and f: "f = stripField seg"
    by (auto simp: splitFields_segments)
  from seg have "seg \<in> set (segments raw)" using set_emitted by blast
  then have "sublist seg raw" unfolding segments_def by (rule sublist_cutAt)
  moreover have "sublist f seg"
    unfolding f stripField_eq
    using sublist_order.order.trans[OF sublist_stripQuotes sublist_trim] .
  ultimately show ?thesis by (rule sublist_order.order.trans[rotated])
qed

text \<open>
  The growth percentage is decided by the pattern on the whole raw text alone. That
  pattern matches as soon as a digit stands right before a percent sign anywhere in the
  text; each of the three patterns tried on a field needs such a pair in the field, and a
  field is cut out of the raw text. So when the first pattern fails, the scan of the fields
  finds nothing and the growth percentage is the empty string.
\<close>

theorem growth_is_whole_blob_match:
  "growthPercentage (cleanTrendsData rawData) =
     (case regex_match re_percent rawData of Some g \<Rightarrow> g | None \<Rightarrow> [])"
proof (cases "regex_match re_percent rawData")
  case (Some g)
  then show ?thesis by (simp add: growth_clean extractGrowth_eq)
next
  case None
  then have n: "\<not> digitPercent rawData" by (rule regex_match_percent_None)
  have "regex_match re_arrow f = None \<and> regex_match re_percent f = None \<and>
        regex_match re_loose f = None" if "f \<in> set (splitFields rawData)" for f
  proof -
    from that have "sublist f rawData" by (rule sublist_field)
    with n have nf: "\<not> digitPercent f" using digitPercent_sublist by blast
    have "regex_match re_arrow f = None"
      using arrow_sound by (intro regex_match_sound[OF _ nf]) blast
    moreover have "regex_match re_percent f = None"
      using percent_sound by (intro regex_match_sound[OF _ nf]) blast
    moreover have "regex_match re_loose f = None"
      using loose_sound by (intro regex_match_sound[OF _ nf]) blast
    ultimately show ?thesis by simp
  qed
  then have "\<And>f. find (\<lambda>field. str_includes field (js ''%'') \<and> (\<exists>c \<in> set field. isDigit c))
               (splitFields rawData) = Some f \<Longrightarrow>
             regex_match re_arrow f = None \<and> regex_match re_percent f = None \<and>
             regex_match re_loose f = None"
    by (auto simp: find_Some_iff)
  with None show ?thesis
    by (auto simp: growth_clean extractGrowth_eq split: option.splits)
qed

theorem growth_is_whole_blob_match_witness:
  "growthPercentage (cleanTrendsData (js ''a,12 %,3 4%'')) = js ''4%'' \<and>
   growthPercentage (cleanTrendsData (js ''a,12 %,arrow_upward %5'')) = []"
  by (simp only: growth_is_whole_blob_match) code_simp

section \<open>The batch\<close>

lemma row_case:
  "(case row of Fragments fs \<Rightarrow> f (join (js '','') fs) | Blob s \<Rightarrow> f s) = f (rowBlob row)"
  by (cases row) (simp_all add: rowBlob_def)

lemma cleanTrendsDataArray_map:
  "cleanTrendsDataArray rows = map (\<lambda>row. cleanTrendsData (rowBlob row)) rows"
  by (simp add: cleanTrendsDataArray_def row_case)

lemma simpleCleanTrendsDataArray_map:
  "simpleCleanTrendsDataArray rows = map (\<lambda>row. simpleCleanTrendsData (rowBlob row)) rows"
  by (simp add: simpleCleanTrendsDataArray_def row_case)

lemma clean_empty:
  "cleanTrendsData [] = \<lparr> trendName = [], searchVolume = [], timeAgo = [],
                          growthPercentage = [], relatedSearches = [] \<rparr>"
  by code_simp

lemma simple_clean_empty:
  "simpleCleanTrendsData [] = \<lparr> trendName = [], searchVolume = [], timeAgo = [],
                          growthPercentage = [], relatedSearches = [] \<rparr>"
  by code_simp

lemma clean_no_fields:
  "splitFields raw = [] \<Longrightarrow>
   cleanTrendsData raw = \<lparr> trendName = [], searchVolume = [], timeAgo = [],
                          growthPercentage = [], relatedSearches = [] \<rparr>"
  using splitFields_empty[of raw] by (simp add: clean_empty)

text \<open>
  Claim C6. The batch operation returns one record per row, in the order of the rows: the
  record at each index is the cleaner's record of that row's text (the blob itself, or
  the fragments joined by commas). A row that yields no field gets the record with every
  field empty, and the empty fragment list is such a row. The functions are total: no
  branch of the source raises. The simple cleaner's batch keeps the same order and
  gives the empty fragment list the same empty record.
\<close>

theorem batch_one_record_per_row:
  "length (cleanTrendsDataArray rows) = length rows \<and>
   (\<forall>i < length rows.
      cleanTrendsDataArray rows ! i = cleanTrendsData (rowBlob (rows ! i)) \<and>
      (splitFields (rowBlob (rows ! i)) = [] \<longrightarrow>
         cleanTrendsDataArray rows ! i =
           \<lparr> trendName = [], searchVolume = [], timeAgo = [],
             growthPercentage = [], relatedSearches = [] \<rparr>)) \<and>
   splitFields (rowBlob (Fragments [])) = [] \<and>
   length (simpleCleanTrendsDataArray rows) = length rows \<and>
   (\<forall>i < length rows.
      simpleCleanTrendsDataArray rows ! i = simpleCleanTrendsData (rowBlob (rows ! i))) \<and>
   simpleCleanTrendsData (rowBlob (Fragments [])) =
     \<lparr> trendName = [], searchVolume = [], timeAgo = [],
       growthPercentage = [], relatedSearches = [] \<rparr>"
proof -
  have e: "splitFields [] = []" by code_simp
  have s: "rowBlob (Fragments []) = []" by (simp add: rowBlob_def)
  show ?thesis
    by (simp add: cleanTrendsDataArray_map simpleCleanTrendsDataArray_map e s simple_clean_empty
          clean_no_fields)
qed

theorem batch_one_record_per_row_witness:
  "length (cleanTrendsDataArray threeRows) = 3 \<and>
   splitFields (rowBlob (threeRows ! 1)) = [] \<and>
   cleanTrendsDataArray threeRows ! 1 =
     \<lparr> trendName = [], searchVolume = [], timeAgo = [],
       growthPercentage = [], relatedSearches = [] \<rparr> \<and>
   map trendName (cleanTrendsDataArray threeRows) = [js ''zq'', [], js ''ab'']"
proof -
  have a: "splitFields (rowBlob (threeRows ! 1)) = []" by code_simp
  have b: "(1::nat) < length threeRows" by (simp add: threeRows_def)
  have c: "map trendName (cleanTrendsDataArray threeRows) = [js ''zq'', [], js ''ab'']" by code_simp
  have d: "length threeRows = 3" by (simp add: threeRows_def)
  note t = batch_one_record_per_row[of threeRows]
  from t have l: "length (cleanTrendsDataArray threeRows) = 3" by (simp add: d)
  from t have "\<forall>i < length threeRows.
      splitFields (rowBlob (threeRows ! i)) = [] \<longrightarrow>
         cleanTrendsDataArray threeRows ! i =
           \<lparr> trendName = [], searchVolume = [], timeAgo = [],
             growthPercentage = [], relatedSearches = [] \<rparr>"
    by blast
  with a b have "cleanTrendsDataArray threeRows ! 1 =
           \<lparr> trendName = [], searchVolume = [], timeAgo = [],
             growthPercentage = [], relatedSearches = [] \<rparr>"
    by blast
  with a c l show ?thesis by simp
qed

section \<open>The serializer\<close>

lemma foldl_append_concat: "foldl (\<lambda>acc x. acc @ f x) a xs = a @ concat (map f xs)"
  by (induction xs arbitrary: a) simp_all

lemma header_line: "join (js '','') headers = js ''Trend Name,Search Volume,Time Ago,Growth %,Related Searches''"
  by (simp add: headers_def js_def)

lemma csv_closed_form:
  "convertCleanedDataToCSV rs =
     join (js '','') headers @ [newline] @ concat (map (\<lambda>item. join (js '','') (csvRow item) @ [newline]) rs)"
  by (simp add: convertCleanedDataToCSV_def foldl_append_concat)

text \<open>
  Claim C7. The serializer's output is the header line
  \<open>Trend Name,Search Volume,Time Ago,Growth %,Related Searches\<close> and then, for each
  record in order, one line: the five cells, each between double quotes, separated by
  commas, the last cell being the related searches joined by \<open>; \<close>. Every line ends
  with a line feed. For no record the output is the header line alone.
\<close>

theorem serializer_output:
  "convertCleanedDataToCSV rs =
     (js ''Trend Name,Search Volume,Time Ago,Growth %,Related Searches'') @ [newline] @
     concat (map (\<lambda>item.
        [dquote] @ trendName item @ [dquote] @ (js '','') @
        [dquote] @ searchVolume item @ [dquote] @ (js '','') @
        [dquote] @ timeAgo item @ [dquote] @ (js '','') @
        [dquote] @ growthPercentage item @ [dquote] @ (js '','') @
        [dquote] @ join (js ''; '') (relatedSearches item) @ [dquote] @ [newline]) rs) \<and>
   convertCleanedDataToCSV [] =
     (js ''Trend Name,Search Volume,Time Ago,Growth %,Related Searches'') @ [newline]"
  by (simp add: csv_closed_form header_line csvRow_def quoted_def)

theorem serializer_output_witness:
  "convertCleanedDataToCSV plainRows =
     js ''Trend Name,Search Volume,Time Ago,Growth %,Related Searches'' @ [newline] @
     js ''\"brett james\",\"200K+\",\"20h ago\",\"900%\",\"plane crash; songs, live\"'' @ [newline] @
     js ''\"x\",\"\",\"\",\"\",\"\"'' @ [newline]"
  by (simp only: serializer_output) code_simp

section \<open>The round trip through the file\<close>

lemma split_no_sep: "sep \<notin> set a \<Longrightarrow> split sep (a @ sep # b) = a # split sep b"
  by (induction a) auto

lemma split_lines:
  "\<forall>l \<in> set ls. sep \<notin> set l \<Longrightarrow> split sep (concat (map (\<lambda>l. l @ [sep]) ls)) = ls @ [[]]"
proof (induction ls)
  case Nil
  then show ?case by simp
next
  case (Cons l ls)
  then have "split sep (l @ sep # concat (map (\<lambda>l. l @ [sep]) ls)) = l # (ls @ [[]])"
    by (simp add: split_no_sep)
  then show ?case by simp
qed

lemma trim_empty: "trim [] = []"
  by (simp add: trim_def)

lemma trim_head_nonspace: "\<not> isSpace c \<Longrightarrow> trim (c # cs) \<noteq> []"
  by (auto simp: trim_def dropWhile_eq_Nil_conv)

lemma not_space_dquote: "\<not> isSpace dquote"
  by (simp add: isSpace_def dquote_def)

lemma set_join: "set (join sep xs) \<subseteq> set sep \<union> \<Union> (set ` set xs)"
  by (induction sep xs rule: join.induct) auto

lemma set_quoted: "set (quoted f) = insert dquote (set f)"
  by (auto simp: quoted_def)

lemma quoted_head: "quoted f = dquote # f @ [dquote]"
  by (simp add: quoted_def)

lemma csvCell_quoted: "trim f = f \<Longrightarrow> csvCell (quoted f) = f"
  by (simp only: csvCell_def replace_quotes quoted_head stripQuotes_pair)

lemma dquote_not_comma: "dquote \<noteq> (cu CHR '','')" and dquote_not_newline: "dquote \<noteq> newline"
  and comma_not_newline: "(cu CHR '','') \<noteq> newline"
  by (simp_all add: dquote_def newline_def cu_def)

lemma rowText_eq:
  "rowText item = quoted (trendName item) @ (cu CHR '','') # quoted (searchVolume item) @ (cu CHR '','') #
     quoted (timeAgo item) @ (cu CHR '','') # quoted (growthPercentage item) @ (cu CHR '','') #
     quoted (join (js ''; '') (relatedSearches item))"
  by (simp add: rowText_def csvRow_def js_def)

lemma split_rowText:
  assumes "plainRecord item"
  shows "split (cu CHR '','') (rowText item) =
           quoted (trendName item) # quoted (searchVolume item) # quoted (timeAgo item) #
           quoted (growthPercentage item) #
           split (cu CHR '','') (quoted (join (js ''; '') (relatedSearches item)))"
proof -
  from assms have c: "(cu CHR '','') \<notin> set (quoted (trendName item))"
      "(cu CHR '','') \<notin> set (quoted (searchVolume item))"
      "(cu CHR '','') \<notin> set (quoted (timeAgo item))"
      "(cu CHR '','') \<notin> set (quoted (growthPercentage item))"
    using dquote_not_comma by (auto simp: plainRecord_def plainField_def set_quoted)
  show ?thesis
    unfolding rowText_eq by (simp only: split_no_sep[OF c(1)] split_no_sep[OF c(2)]
        split_no_sep[OF c(3)] split_no_sep[OF c(4)])
qed

lemma parseLine_rowText:
  assumes "plainRecord item"
  shows "\<exists>r. parseLine (rowText item) = Some r \<and> coreFields r = coreFields item"
proof -
  from assms have t: "trim (trendName item) = trendName item"
      "trim (searchVolume item) = searchVolume item"
      "trim (timeAgo item) = timeAgo item"
      "trim (growthPercentage item) = growthPercentage item"
      and ne: "trendName item \<noteq> []"
    by (simp_all add: plainRecord_def plainField_def)
  let ?rest = "map csvCell (split (cu CHR '','') (quoted (join (js ''; '') (relatedSearches item))))"
  have cells: "map csvCell (split (cu CHR '','') (rowText item)) =
      trendName item # searchVolume item # timeAgo item # growthPercentage item # ?rest"
    by (simp add: split_rowText[OF assms] csvCell_quoted t)
  show ?thesis
    unfolding parseLine_def cells Let_def
    using ne by (simp add: at_index_def truthy_def or_else_def coreFields_def)
qed

lemma newline_notin_rowText:
  assumes "plainRecord item"
  shows "newline \<notin> set (rowText item)"
proof -
  from assms have r: "\<forall>t \<in> set (relatedSearches item). newline \<notin> set t"
    by (simp add: plainRecord_def list_all_iff)
  have "newline \<notin> set (js ''; '')" by (simp add: newline_def cu_def js_def)
  with r have "newline \<notin> set (join (js ''; '') (relatedSearches item))"
    using set_join[of "(js ''; '')" "relatedSearches item"] by auto
  with assms show ?thesis
    using dquote_not_newline comma_not_newline
    by (auto simp: rowText_eq set_quoted plainRecord_def plainField_def)
qed

lemma trim_rowText: "trim (rowText item) \<noteq> []"
  by (simp add: rowText_eq quoted_head trim_head_nonspace not_space_dquote)

lemma csvLines_csv:
  assumes "\<forall>r \<in> set rs. plainRecord r"
  shows "csvLines (convertCleanedDataToCSV rs) = map rowText rs"
proof -
  let ?H = "join (js '','') headers"
  have h: "newline \<notin> set ?H" by (simp add: headers_def newline_def js_def cu_def)
  have "convertCleanedDataToCSV rs = concat (map (\<lambda>l. l @ [newline]) (?H # map rowText rs))"
    by (simp add: csv_closed_form rowText_def comp_def)
  moreover have "\<forall>l \<in> set (?H # map rowText rs). newline \<notin> set l"
    using h assms by (auto simp: newline_notin_rowText)
  ultimately have "split newline (convertCleanedDataToCSV rs) = (?H # map rowText rs) @ [[]]"
    by (simp only: split_lines)
  then have "csvLines (convertCleanedDataToCSV rs) =
      filter (\<lambda>line. trim line \<noteq> []) (map rowText rs @ [[]])"
    by (simp add: csvLines_def)
  also have "\<dots> = map rowText rs"
    by (simp add: trim_empty filter_map comp_def trim_rowText)
  finally show ?thesis .
qed

lemma map_filter_rows:
  "\<forall>r \<in> set rs. plainRecord r \<Longrightarrow>
   map coreFields (List.map_filter parseLine (map rowText rs)) = map coreFields rs"
proof (induction rs)
  case Nil
  then show ?case by (simp add: List.map_filter_simps)
next
  case (Cons r rs)
  then obtain r' where "parseLine (rowText r) = Some r'" "coreFields r' = coreFields r"
    using parseLine_rowText[of r] by auto
  with Cons show ?case by (simp add: List.map_filter_simps)
qed

text \<open>
  Claim C1, as stated, fails: the reader splits a line at every comma, so a comma inside a
  value cuts the value. The record the cleaner returns for Scenario A has the growth
  percentage \<open>1,000%\<close> and comes back with \<open>1\<close>. A record with an empty name is
  skipped by the reader, white space at the end of a value is trimmed away, and a line
  feed in a related search starts a line of its own.
\<close>

theorem round_trip_counterexample:
  "\<not> roundTrips [cleanTrendsData scenarioA] \<and>
   \<not> roundTrips [\<lparr> trendName = [], searchVolume = js ''200K+'', timeAgo = js ''20h ago'',
                   growthPercentage = js ''900%'', relatedSearches = [] \<rparr>] \<and>
   \<not> roundTrips [\<lparr> trendName = js ''brett james '', searchVolume = js ''200K+'', timeAgo = js ''20h ago'',
                   growthPercentage = js ''900%'', relatedSearches = [] \<rparr>] \<and>
   \<not> roundTrips [\<lparr> trendName = js ''brett james'', searchVolume = js ''200K+'', timeAgo = js ''20h ago'',
                   growthPercentage = js ''900%'', relatedSearches = [js ''plane'' @ [newline] @ (js ''crash'')] \<rparr>]"
  by code_simp

text \<open>
  Claim C1, amended. When every record has a non-empty trend name, its trend name, search
  volume, elapsed time and growth percentage hold no comma and no line feed and neither
  start nor end with white space, and no related search holds a line feed, then the
  reader builds one record per serialized record, in order, with the same trend name,
  search volume, elapsed time and growth percentage.
\<close>

theorem round_trip_plain_records:
  "\<forall>r \<in> set rs. plainRecord r \<Longrightarrow> roundTrips rs"
  by (simp add: roundTrips_def parsedTrends_def csvLines_csv map_filter_rows)

theorem round_trip_plain_records_witness:
  "plainRecord (plainRows ! 0) \<and> plainRecord (plainRows ! 1) \<and> roundTrips plainRows"
proof -
  have p: "\<forall>r \<in> set plainRows. plainRecord r" by code_simp
  from round_trip_plain_records[OF p] p show ?thesis by (simp add: plainRows_def)
qed

end
